theory Spec2Isabelle
  imports Main "HOL-Library.Word" "HOL-Library.AList"
begin

unbundle bit_operations_syntax

section \<open>The sharded cache of gache.go\<close>

text \<open>
  The embedding follows the generic, sharded cache (\<^verbatim>\<open>gache[V]\<close>) of \<^verbatim>\<open>gache.go\<close>.
  It is a sequential model: every operation runs to completion before the next one
  starts, and reads the clock (\<^verbatim>\<open>fastime.UnixNanoNow()\<close>) once; the reading is the
  argument \<open>now\<close>. Go's \<^verbatim>\<open>int64\<close>, \<^verbatim>\<open>uint64\<close> and \<^verbatim>\<open>time.Duration\<close> are 64-bit words:
  \<open>+\<close> wraps around, the signed comparisons are \<open>\<le>s\<close> and \<open><s\<close>.
  The string hash \<^verbatim>\<open>xxh3.HashString\<close> belongs to another module; it is the parameter
  \<open>h\<close> of every operation that routes a key.
\<close>

type_synonym int64 = "64 word"
type_synonym uint64 = "64 word"
type_synonym duration = "64 word"
type_synonym hasher = "string \<Rightarrow> uint64"

subsection \<open>Data\<close>

text \<open>\<^verbatim>\<open>value[V]\<close>: the stored value and its absolute expiration instant.\<close>

record 'v gvalue =
  expire :: int64
  val :: 'v

text \<open>
  A shard is a \<^verbatim>\<open>hashmap.Map[string, value[V]]\<close>. It is an association list whose
  order is the order in which \<^verbatim>\<open>Range\<close> visits the entries; \<^verbatim>\<open>Get\<close> is \<open>map_of\<close>,
  \<^verbatim>\<open>Set\<close> is \<open>AList.update\<close>, \<^verbatim>\<open>Del\<close> is \<open>AList.delete\<close> and reports whether the key
  was there.
\<close>

type_synonym 'v shard = "(string \<times> 'v gvalue) list"

text \<open>
  A buffered channel: its capacity and the elements waiting in it. A send on a
  full channel with no receiver never returns.
\<close>

record 'a chan =
  chan_cap :: nat
  chan_buf :: "'a list"

definition make_chan :: "nat \<Rightarrow> 'a chan" where
  "make_chan n = \<lparr>chan_cap = n, chan_buf = []\<rparr>"

definition send :: "'a chan \<Rightarrow> 'a \<Rightarrow> 'a chan option" where
  "send c x =
     (if length (chan_buf c) < chan_cap c then Some (c\<lparr>chan_buf := chan_buf c @ [x]\<rparr>)
      else None)"

text \<open>
  \<^verbatim>\<open>gache[V]\<close>. The field \<^verbatim>\<open>expire\<close> (the default TTL) is \<open>expire_g\<close> here, since
  \<open>expire\<close> is the field of \<open>gvalue\<close>. The fields \<^verbatim>\<open>cancel\<close>, \<^verbatim>\<open>expGroup\<close> and
  \<^verbatim>\<open>expFunc\<close> belong to the background daemon and to the call deduplication between
  goroutines; a sequential run never reads them.
\<close>

record 'v gache =
  expFuncEnabled :: bool
  expire_g :: int64
  l :: uint64
  expChan :: "string chan"
  shards :: "'v shard list"

text \<open>What stops an operation from returning: a panic, or a send that blocks.\<close>

datatype fault = IndexOutOfRange | SendBlocked

subsection \<open>Constants\<close>

definition slen :: nat where
  "slen = 512"

definition mask_g :: uint64 where
  "mask_g = 0x1FF"

definition NoTTL :: duration where
  "NoTTL = - 1"

definition second :: duration where
  "second = 1000000000"

definition shard_idx :: "hasher \<Rightarrow> string \<Rightarrow> nat" where
  "shard_idx h key = unat (h key AND mask_g)"

subsection \<open>Construction and configuration\<close>

definition newMap :: "'v shard" where
  "newMap = []"

definition SetDefaultExpire :: "'v gache \<Rightarrow> duration \<Rightarrow> 'v gache" where
  "SetDefaultExpire g ex = g\<lparr>expire_g := ex\<rparr>"

definition EnableExpiredHook :: "'v gache \<Rightarrow> 'v gache" where
  "EnableExpiredHook g = g\<lparr>expFuncEnabled := True\<rparr>"

definition DisableExpiredHook :: "'v gache \<Rightarrow> 'v gache" where
  "DisableExpiredHook g = g\<lparr>expFuncEnabled := False\<rparr>"

text \<open>
  Modelled from the spec: the option \<^verbatim>\<open>WithDefaultExpiration\<close> is declared in a file
  that is not part of the sources. The spec gives "default TTL = 30 seconds if
  unspecified", which \<^verbatim>\<open>New\<close> obtains by applying this option first; the option stores
  the duration as the default TTL.
\<close>

definition WithDefaultExpiration :: "duration \<Rightarrow> 'v gache \<Rightarrow> 'v gache" where
  "WithDefaultExpiration dur g = SetDefaultExpire g dur"

text \<open>The zero value of the struct, \<^verbatim>\<open>new(gache[V])\<close>.\<close>

definition zero_gache :: "'v gache" where
  "zero_gache =
     \<lparr>expFuncEnabled = False, expire_g = 0, l = 0, expChan = make_chan 0,
      shards = replicate slen newMap\<rparr>"

text \<open>
  \<^verbatim>\<open>New\<close>: the options run in order after the default expiration, then every slot of
  the array \<^verbatim>\<open>[slen]*hashmap.Map\<close> receives a fresh map and the hook channel is made
  with room for \<^verbatim>\<open>len(g.shards)*10\<close> keys.
\<close>

definition New :: "('v gache \<Rightarrow> 'v gache) list \<Rightarrow> 'v gache" where
  "New opts =
     (let g = fold (\<lambda>opt g. opt g) (WithDefaultExpiration (second * 30) # opts) zero_gache
      in g\<lparr>shards := replicate slen newMap, expChan := make_chan (slen * 10)\<rparr>)"

subsection \<open>Expiration check\<close>

definition isValid :: "int64 \<Rightarrow> 'v gvalue \<Rightarrow> bool" where
  "isValid now v \<longleftrightarrow> expire v \<le>s 0 \<or> now \<le>s expire v"

subsection \<open>Delete, expiration, get, set\<close>

text \<open>
  \<^verbatim>\<open>Delete\<close> adds \<^verbatim>\<open>^uint64(0)\<close> to the counter, then deletes from the shard and returns
  what \<^verbatim>\<open>Del\<close> reports. Indexing the array outside its bounds panics.
\<close>

definition Delete :: "hasher \<Rightarrow> 'v gache \<Rightarrow> string \<Rightarrow> fault + (bool \<times> 'v gache)" where
  "Delete h g key =
     (let g1 = g\<lparr>l := l g + NOT 0\<rparr>; i = shard_idx h key
      in if i < length (shards g1)
         then Inr (map_of (shards g1 ! i) key \<noteq> None,
                   g1\<lparr>shards := (shards g1)[i := AList.delete key (shards g1 ! i)]\<rparr>)
         else Inl IndexOutOfRange)"

text \<open>
  \<^verbatim>\<open>expiration\<close>: with no other goroutine in the same call, \<^verbatim>\<open>expGroup.Do\<close> runs its
  function: delete the key, then, if the hook is enabled, send the key on the channel.
\<close>

definition expiration :: "hasher \<Rightarrow> 'v gache \<Rightarrow> string \<Rightarrow> fault + 'v gache" where
  "expiration h g key =
     (case Delete h g key of
        Inl e \<Rightarrow> Inl e
      | Inr (_, g1) \<Rightarrow>
          if expFuncEnabled g1
          then (case send (expChan g1) key of
                  None \<Rightarrow> Inl SendBlocked
                | Some c \<Rightarrow> Inr (g1\<lparr>expChan := c\<rparr>))
          else Inr g1)"

text \<open>\<^verbatim>\<open>get\<close>; \<open>z\<close> is the zero value of the type \<^verbatim>\<open>V\<close> (\<^verbatim>\<open>var val V\<close>).\<close>

definition get :: "hasher \<Rightarrow> 'v \<Rightarrow> int64 \<Rightarrow> 'v gache \<Rightarrow> string
    \<Rightarrow> fault + (('v \<times> int64 \<times> bool) \<times> 'v gache)" where
  "get h z now g key =
     (let i = shard_idx h key
      in if i < length (shards g)
         then (case map_of (shards g ! i) key of
                 None \<Rightarrow> Inr ((z, 0, False), g)
               | Some v \<Rightarrow>
                   if isValid now v then Inr ((val v, expire v, True), g)
                   else (case expiration h g key of
                           Inl e \<Rightarrow> Inl e
                         | Inr g' \<Rightarrow> Inr ((z, expire v, False), g')))
         else Inl IndexOutOfRange)"

definition Get :: "hasher \<Rightarrow> 'v \<Rightarrow> int64 \<Rightarrow> 'v gache \<Rightarrow> string
    \<Rightarrow> fault + (('v \<times> bool) \<times> 'v gache)" where
  "Get h z now g key =
     (case get h z now g key of
        Inl e \<Rightarrow> Inl e
      | Inr ((v, _, ok), g') \<Rightarrow> Inr ((v, ok), g'))"

definition GetWithExpire :: "hasher \<Rightarrow> 'v \<Rightarrow> int64 \<Rightarrow> 'v gache \<Rightarrow> string
    \<Rightarrow> fault + (('v \<times> int64 \<times> bool) \<times> 'v gache)" where
  "GetWithExpire h z now g key = get h z now g key"

definition set_g :: "hasher \<Rightarrow> int64 \<Rightarrow> 'v gache \<Rightarrow> string \<Rightarrow> 'v \<Rightarrow> int64
    \<Rightarrow> fault + 'v gache" where
  "set_g h now g key v ex =
     (let ex' = (if 0 <s ex then now + ex else ex);
          g1 = g\<lparr>l := l g + 1\<rparr>;
          i = shard_idx h key
      in if i < length (shards g1)
         then Inr (g1\<lparr>shards :=
                 (shards g1)[i := AList.update key \<lparr>expire = ex', val = v\<rparr> (shards g1 ! i)]\<rparr>)
         else Inl IndexOutOfRange)"

definition SetWithExpire :: "hasher \<Rightarrow> int64 \<Rightarrow> 'v gache \<Rightarrow> string \<Rightarrow> 'v \<Rightarrow> duration
    \<Rightarrow> fault + 'v gache" where
  "SetWithExpire h now g key v ex = set_g h now g key v ex"

definition Set :: "hasher \<Rightarrow> int64 \<Rightarrow> 'v gache \<Rightarrow> string \<Rightarrow> 'v \<Rightarrow> fault + 'v gache" where
  "Set h now g key v = set_g h now g key v (expire_g g)"

subsection \<open>Len and Clear\<close>

text \<open>\<^verbatim>\<open>Len\<close> reads the unsigned counter and reinterprets its bits as an \<^verbatim>\<open>int\<close>.\<close>

definition Len :: "'v gache \<Rightarrow> int" where
  "Len g = sint (l g)"

definition Clear :: "'v gache \<Rightarrow> 'v gache" where
  "Clear g = g\<lparr>shards := map (\<lambda>_. newMap) (shards g)\<rparr>"

subsection \<open>Range, Write, Read\<close>

text \<open>
  \<^verbatim>\<open>Range\<close> starts one goroutine per shard and waits for all of them; the model runs
  them one after the other, shard 0 first. \<open>cancelled\<close> says whether the context is
  done; the callback \<open>f\<close> threads its own state \<open>acc\<close> (what the Go closure captures)
  and returns whether the traversal of the shard goes on.
\<close>

fun range_shard :: "hasher \<Rightarrow> bool \<Rightarrow> int64 \<Rightarrow> (string \<Rightarrow> 'v \<Rightarrow> int64 \<Rightarrow> 'a \<Rightarrow> bool \<times> 'a)
    \<Rightarrow> 'v gache \<times> 'a \<Rightarrow> 'v shard \<Rightarrow> fault + ('v gache \<times> 'a)" where
  "range_shard h cancelled now f (g, acc) [] = Inr (g, acc)"
| "range_shard h cancelled now f (g, acc) ((k, v) # es) =
     (if cancelled then Inr (g, acc)
      else if isValid now v
      then (case f k (val v) (expire v) acc of
              (True, acc') \<Rightarrow> range_shard h cancelled now f (g, acc') es
            | (False, acc') \<Rightarrow> Inr (g, acc'))
      else (case expiration h g k of
              Inl e \<Rightarrow> Inl e
            | Inr g' \<Rightarrow> range_shard h cancelled now f (g', acc) es))"

fun range_shards :: "hasher \<Rightarrow> bool \<Rightarrow> int64 \<Rightarrow> (string \<Rightarrow> 'v \<Rightarrow> int64 \<Rightarrow> 'a \<Rightarrow> bool \<times> 'a)
    \<Rightarrow> 'v gache \<times> 'a \<Rightarrow> nat list \<Rightarrow> fault + ('v gache \<times> 'a)" where
  "range_shards h cancelled now f (g, acc) [] = Inr (g, acc)"
| "range_shards h cancelled now f (g, acc) (i # idxs) =
     (case range_shard h cancelled now f (g, acc) (shards g ! i) of
        Inl e \<Rightarrow> Inl e
      | Inr ga \<Rightarrow> range_shards h cancelled now f ga idxs)"

definition Range_g :: "hasher \<Rightarrow> bool \<Rightarrow> int64 \<Rightarrow> (string \<Rightarrow> 'v \<Rightarrow> int64 \<Rightarrow> 'a \<Rightarrow> bool \<times> 'a)
    \<Rightarrow> 'v gache \<Rightarrow> 'a \<Rightarrow> fault + ('v gache \<times> 'a)" where
  "Range_g h cancelled now f g acc =
     range_shards h cancelled now f (g, acc) [0..<length (shards g)]"

text \<open>
  \<^verbatim>\<open>Write\<close> collects the pairs that \<^verbatim>\<open>Range\<close> delivers into a Go map and encodes the map
  to the sink. The gob encoder is the parameter \<open>enc\<close>: it returns what the sink
  receives, or an error. A Go map is an association list with \<open>AList.update\<close> as
  assignment.
\<close>

definition Write :: "hasher \<Rightarrow> ((string \<times> 'v) list \<Rightarrow> 'e + 's) \<Rightarrow> bool \<Rightarrow> int64 \<Rightarrow> 'v gache
    \<Rightarrow> fault + (('e + 's) \<times> 'v gache)" where
  "Write h enc cancelled now g =
     (case Range_g h cancelled now (\<lambda>key v ex m. (True, AList.update key v m)) g [] of
        Inl e \<Rightarrow> Inl e
      | Inr (g', m) \<Rightarrow> Inr (enc m, g'))"

text \<open>
  \<^verbatim>\<open>Read\<close> decodes one map from the source with the gob decoder, the parameter \<open>dec\<close>,
  returns its error if it fails, and otherwise calls \<^verbatim>\<open>Set\<close> for every pair of the map,
  in the order of the list.
\<close>

fun Read_loop :: "hasher \<Rightarrow> int64 \<Rightarrow> 'v gache \<Rightarrow> (string \<times> 'v) list \<Rightarrow> fault + 'v gache" where
  "Read_loop h now g [] = Inr g"
| "Read_loop h now g ((k, v) # m) =
     (case Set h now g k v of
        Inl e \<Rightarrow> Inl e
      | Inr g' \<Rightarrow> Read_loop h now g' m)"

definition Read :: "hasher \<Rightarrow> ('s \<Rightarrow> 'e + (string \<times> 'v) list) \<Rightarrow> int64 \<Rightarrow> 'v gache \<Rightarrow> 's
    \<Rightarrow> fault + ('e option \<times> 'v gache)" where
  "Read h dec now g r =
     (case dec r of
        Inl err \<Rightarrow> Inr (Some err, g)
      | Inr m \<Rightarrow>
          (case Read_loop h now g m of
             Inl e \<Rightarrow> Inl e
           | Inr g' \<Rightarrow> Inr (None, g')))"

section \<open>Notions used to state the properties\<close>

text \<open>
  The array type \<^verbatim>\<open>[slen]*hashmap.Map\<close> fixes the number of shards; on the list that
  models the array this is an invariant.
\<close>

definition array_ok :: "'v gache \<Rightarrow> bool" where
  "array_ok g \<longleftrightarrow> length (shards g) = slen"

text \<open>The entry that the owning shard holds for a key: \<^verbatim>\<open>g.shards[hash&mask].Get(key)\<close>.\<close>

definition entry_of :: "hasher \<Rightarrow> 'v gache \<Rightarrow> string \<Rightarrow> 'v gvalue option" where
  "entry_of h g key = map_of (shards g ! shard_idx h key) key"

text \<open>A sample hash function and a sample decoder, for concrete runs.\<close>

definition hash_len :: hasher where
  "hash_len key = of_nat (length key)"

definition dec_sample :: "string \<Rightarrow> string + (string \<times> nat) list" where
  "dec_sample r = (if r = ''a=1'' then Inr [(''a'', 1)] else Inl ''unexpected EOF'')"

text \<open>
  Whether an eviction can notify the hook without blocking: the hook is disabled, or
  the hook channel has room.
\<close>

definition hook_room :: "'v gache \<Rightarrow> bool" where
  "hook_room g \<longleftrightarrow> \<not> expFuncEnabled g \<or> length (chan_buf (expChan g)) < chan_cap (expChan g)"

text \<open>A callback for \<open>Range_g\<close> that records what it is called with and always goes on.\<close>

definition record_call :: "string \<Rightarrow> 'v \<Rightarrow> int64 \<Rightarrow> (string \<times> 'v \<times> int64) list
    \<Rightarrow> bool \<times> (string \<times> 'v \<times> int64) list" where
  "record_call k v ex acc = (True, acc @ [(k, v, ex)])"

text \<open>
  Sample caches: one whose shard 1 holds a key that never expires and a key that
  expires at instant 4; and one with the hook enabled and the hook channel full.
\<close>

definition sample_two :: "nat gache" where
  "sample_two = (New [])\<lparr>l := 2, shards := (replicate slen newMap)
     [1 := [(''a'', \<lparr>expire = - 1, val = 7\<rparr>), (''b'', \<lparr>expire = 4, val = 8\<rparr>)]]\<rparr>"

definition sample_full :: "nat gache" where
  "sample_full = (New [EnableExpiredHook])
     \<lparr>expChan := \<lparr>chan_cap = slen * 10, chan_buf = replicate (slen * 10) ''x''\<rparr>\<rparr>"

text \<open>
  Every key sits in the shard that the hash routes it to, once: this holds of a fresh
  cache and \<open>set\<close> keeps it.
\<close>

definition routed :: "hasher \<Rightarrow> 'v gache \<Rightarrow> bool" where
  "routed h g \<longleftrightarrow>
     (\<forall>i < length (shards g). distinct (map fst (shards g ! i)) \<and>
        (\<forall>(k, e) \<in> set (shards g ! i). shard_idx h k = i))"

text \<open>The number of entries that the shards hold.\<close>

definition stored_count :: "'v gache \<Rightarrow> nat" where
  "stored_count g = sum_list (map length (shards g))"

text \<open>No entry of the cache is expired at the clock reading \<open>now\<close>.\<close>

definition all_valid :: "int64 \<Rightarrow> 'v gache \<Rightarrow> bool" where
  "all_valid now g \<longleftrightarrow> (\<forall>s \<in> set (shards g). \<forall>(k, e) \<in> set s. isValid now e)"

text \<open>
  What the round trip needs of the gob encoder and decoder: every Go map is encoded
  without error, and decoding the result gives a Go map with the same keys and values,
  in whatever order.
\<close>

definition codec_ok :: "((string \<times> 'v) list \<Rightarrow> 'e + 's) \<Rightarrow> ('s \<Rightarrow> 'f + (string \<times> 'v) list) \<Rightarrow> bool" where
  "codec_ok enc dec \<longleftrightarrow>
     (\<forall>m. distinct (map fst m) \<longrightarrow>
        (\<exists>s m'. enc m = Inr s \<and> dec s = Inr m' \<and> distinct (map fst m') \<and> map_of m' = map_of m))"

text \<open>Storing a list of pairs, one \<open>SetWithExpire\<close> after the other, with the same TTL.\<close>

fun set_all :: "hasher \<Rightarrow> int64 \<Rightarrow> 'v gache \<Rightarrow> (string \<times> 'v) list \<Rightarrow> duration
    \<Rightarrow> fault + 'v gache" where
  "set_all h now g [] ttl = Inr g"
| "set_all h now g ((k, v) # kvs) ttl =
     (case SetWithExpire h now g k v ttl of
        Inl e \<Rightarrow> Inl e
      | Inr g' \<Rightarrow> set_all h now g' kvs ttl)"

text \<open>A sample encoder and decoder: the sink holds the map itself, reversed.\<close>

definition enc_rev :: "(string \<times> nat) list \<Rightarrow> string + (string \<times> nat) list" where
  "enc_rev m = Inr (rev m)"

definition dec_plain :: "(string \<times> nat) list \<Rightarrow> string + (string \<times> nat) list" where
  "dec_plain r = Inr r"

text \<open>A sample cache that holds the key \<open>''a''\<close> with the value 7 and a given expiration.\<close>

definition sample_ttl :: "int64 \<Rightarrow> nat gache" where
  "sample_ttl ex = (New [])\<lparr>l := 1, shards := (replicate slen newMap)
     [1 := [(''a'', \<lparr>expire = ex, val = 7\<rparr>)]]\<rparr>"

section \<open>Basic facts\<close>

lemma shard_idx_lt: "shard_idx h key < slen"
proof -
  have "h key AND mask_g \<le> mask_g"
    by (rule word_and_le1)
  then have "unat (h key AND mask_g) \<le> unat mask_g"
    by (simp add: word_le_nat_alt)
  then show ?thesis
    by (simp add: shard_idx_def mask_g_def slen_def)
qed

lemma array_ok_New: "array_ok (New opts)"
  by (simp add: array_ok_def New_def Let_def)

lemma shard_idx_in: "array_ok g \<Longrightarrow> shard_idx h key < length (shards g)"
  by (simp add: array_ok_def shard_idx_lt)

lemma Delete_ok:
  "array_ok g \<Longrightarrow> Delete h g key =
     Inr (entry_of h g key \<noteq> None,
          g\<lparr>l := l g + NOT 0,
            shards := (shards g)[shard_idx h key := AList.delete key (shards g ! shard_idx h key)]\<rparr>)"
  by (simp add: Delete_def Let_def shard_idx_in entry_of_def)

lemma set_g_ok:
  "array_ok g \<Longrightarrow> set_g h now g key v ex =
     Inr (g\<lparr>l := l g + 1,
            shards := (shards g)[shard_idx h key :=
               AList.update key \<lparr>expire = (if 0 <s ex then now + ex else ex), val = v\<rparr>
                 (shards g ! shard_idx h key)]\<rparr>)"
  by (simp add: set_g_def Let_def shard_idx_in)

lemma get_unfold:
  "array_ok g \<Longrightarrow> get h z now g key =
     (case entry_of h g key of
        None \<Rightarrow> Inr ((z, 0, False), g)
      | Some v \<Rightarrow>
          if isValid now v then Inr ((val v, expire v, True), g)
          else (case expiration h g key of
                  Inl e \<Rightarrow> Inl e
                | Inr g' \<Rightarrow> Inr ((z, expire v, False), g')))"
  by (simp add: get_def Let_def shard_idx_in entry_of_def)

lemma expiration_ok:
  "array_ok g \<Longrightarrow> expiration h g key =
     (let g1 = g\<lparr>l := l g + NOT 0,
            shards := (shards g)[shard_idx h key := AList.delete key (shards g ! shard_idx h key)]\<rparr>
      in if expFuncEnabled g
         then (case send (expChan g) key of
                 None \<Rightarrow> Inl SendBlocked
               | Some c \<Rightarrow> Inr (g1\<lparr>expChan := c\<rparr>))
         else Inr g1)"
  by (simp add: expiration_def Delete_ok Let_def)

lemma expiration_no_panic: "array_ok g \<Longrightarrow> expiration h g key \<noteq> Inl IndexOutOfRange"
  by (simp add: expiration_ok Let_def split: option.splits)

lemma get_no_panic: "array_ok g \<Longrightarrow> get h z now g key \<noteq> Inl IndexOutOfRange"
  using expiration_no_panic [of g h key]
  by (auto simp add: get_unfold split: option.splits sum.splits)

lemma get_other_shard:
  assumes "array_ok g" "j \<noteq> shard_idx h key"
  shows "map_sum id fst (get h z now (g\<lparr>shards := (shards g)[j := s]\<rparr>) key)
       = map_sum id fst (get h z now g key)"
proof -
  have ok: "array_ok (g\<lparr>shards := (shards g)[j := s]\<rparr>)"
    using assms by (simp add: array_ok_def)
  show ?thesis using assms
    by (simp add: get_unfold ok entry_of_def expiration_ok Let_def split: option.splits sum.splits)
qed

lemma array_ok_upd: "array_ok g \<Longrightarrow> array_ok (g\<lparr>l := c, shards := (shards g)[i := s]\<rparr>)"
  by (simp add: array_ok_def)

lemma entry_of_upd_same:
  "array_ok g \<Longrightarrow> entry_of h (g\<lparr>l := c, shards := (shards g)[shard_idx h key := s]\<rparr>) key = map_of s key"
  by (simp add: entry_of_def shard_idx_in)

section \<open>Sample runs\<close>

text \<open>A fresh cache with no options, and the shard of the key \<open>''a''\<close> under the sample hash.\<close>

lemma New_nil_fields:
  "shards (New []) = replicate slen newMap \<and> l (New []) = 0 \<and> \<not> expFuncEnabled (New [])
   \<and> expire_g (New []) = second * 30 \<and> expChan (New []) = make_chan (slen * 10)"
  by (simp add: New_def Let_def WithDefaultExpiration_def SetDefaultExpire_def zero_gache_def)

lemma sample_idx: "shard_idx hash_len ''a'' = 1"
  by (simp add: shard_idx_def hash_len_def mask_g_def)

section \<open>Clear\<close>

lemma Clear_shards: "array_ok g \<Longrightarrow> i < slen \<Longrightarrow> shards (Clear g) ! i = newMap"
  by (simp add: Clear_def array_ok_def)

lemma array_ok_Clear: "array_ok g \<Longrightarrow> array_ok (Clear g)"
  by (simp add: Clear_def array_ok_def)

lemma entry_of_Clear: "array_ok g \<Longrightarrow> entry_of h (Clear g) key = None"
  by (simp add: entry_of_def Clear_shards shard_idx_lt newMap_def)

lemma Get_unfold:
  "Get h z now g key =
     (case get h z now g key of Inl e \<Rightarrow> Inl e | Inr ((v, ex, ok), g') \<Rightarrow> Inr ((v, ok), g'))"
  by (simp add: Get_def split: sum.splits prod.splits)

text \<open>
  C9. \<open>Clear\<close> puts a fresh empty map into every slot of the shard array. Afterwards
  no shard holds an entry for any key, whatever was stored before and with whatever
  TTL, so \<open>Get\<close> and \<open>GetWithExpire\<close> of every key return the zero value and "not
  found", at every clock reading, and leave the cache as it is.
\<close>

theorem Clear_destroys_all:
  assumes "array_ok g"
  shows "array_ok (Clear g) \<and> (\<forall>i < slen. shards (Clear g) ! i = newMap) \<and>
         entry_of h (Clear g) key = None \<and>
         Get h z now (Clear g) key = Inr ((z, False), Clear g) \<and>
         GetWithExpire h z now (Clear g) key = Inr ((z, 0, False), Clear g)"
  using assms
  by (simp add: array_ok_Clear Clear_shards entry_of_Clear Get_unfold GetWithExpire_def get_unfold)

lemma set_sample:
  "set_g hash_len 5 (New [] :: nat gache) ''a'' 7 ex =
     Inr ((New [])\<lparr>l := 1, shards := (replicate slen newMap)
        [1 := [(''a'', \<lparr>expire = (if 0 <s ex then 5 + ex else ex), val = 7\<rparr>)]]\<rparr>)"
  by (simp add: set_g_ok array_ok_New sample_idx New_nil_fields slen_def newMap_def)

theorem Clear_destroys_all_witness:
  "(case SetWithExpire hash_len 5 (New [] :: nat gache) ''a'' 7 NoTTL of
      Inl e \<Rightarrow> False
    | Inr g \<Rightarrow> array_ok g \<and> entry_of hash_len g ''a'' = Some \<lparr>expire = - 1, val = 7\<rparr> \<and>
        shards (Clear g) ! 1 = newMap \<and>
        Get hash_len 0 9 (Clear g) ''a'' = Inr ((0, False), Clear g))"
proof -
  let ?g = "(New [] :: nat gache)\<lparr>l := 1, shards := (replicate slen newMap)
        [1 := [(''a'', \<lparr>expire = - 1, val = 7\<rparr>)]]\<rparr>"
  have s: "SetWithExpire hash_len 5 (New [] :: nat gache) ''a'' 7 NoTTL = Inr ?g"
    by (simp add: SetWithExpire_def set_sample NoTTL_def)
  have ok: "array_ok ?g"
    by (simp add: array_ok_def New_nil_fields)
  have e: "entry_of hash_len ?g ''a'' = Some \<lparr>expire = - 1, val = 7\<rparr>"
    by (simp add: entry_of_def sample_idx slen_def)
  show ?thesis
    using Clear_destroys_all [OF ok, of hash_len "''a''" 0 9] s ok e
    by (simp add: slen_def)
qed

section \<open>Read with a source that does not decode\<close>

text \<open>
  C10. When the decoder fails on the source, \<open>Read\<close> returns the decoder's error and
  the cache is exactly the cache before the call: no shard has changed and the size
  counter is the same, since \<open>Set\<close> is not reached.
\<close>

theorem Read_decode_error_unchanged:
  assumes "dec r = Inl err"
  shows "Read h dec now g r = Inr (Some err, g)"
  using assms by (simp add: Read_def)

theorem Read_decode_error_unchanged_witness:
  "dec_sample ''a='' = Inl ''unexpected EOF'' \<and>
   Read hash_len dec_sample 5 (New [] :: nat gache) ''a='' = Inr (Some ''unexpected EOF'', New [])"
  using Read_decode_error_unchanged [of dec_sample "''a=''" "''unexpected EOF''" hash_len 5 "New [] :: nat gache"]
  by (simp add: dec_sample_def)

section \<open>Set\<close>

lemma Set_unfold: "Set h now g key v = SetWithExpire h now g key v (expire_g g)"
  by (simp add: Set_def SetWithExpire_def)

lemma SetWithExpire_ok:
  assumes "array_ok g"
  shows "\<exists>g'. SetWithExpire h now g key v ttl = Inr g' \<and> array_ok g' \<and>
            entry_of h g' key = Some \<lparr>expire = (if 0 <s ttl then now + ttl else ttl), val = v\<rparr> \<and>
            l g' = l g + 1 \<and> expire_g g' = expire_g g \<and> expFuncEnabled g' = expFuncEnabled g \<and>
            expChan g' = expChan g"
  using assms
  by (simp add: SetWithExpire_def set_g_ok entry_of_upd_same update_conv' array_ok_upd)

lemma never_expires: "\<not> 0 <s ex \<Longrightarrow> isValid t \<lparr>expire = ex, val = v\<rparr>"
  by (simp add: isValid_def word_sle_eq word_sless_alt)

text \<open>
  C3 (as amended). \<open>SetWithExpire\<close> and \<open>Set\<close> (with the default TTL) store an entry for
  the key and add one to the size counter. The stored expiration is \<open>now + ttl\<close>, in
  64-bit arithmetic, when \<open>ttl > 0\<close>; otherwise it is \<open>ttl\<close> itself, unchanged, which
  is not positive and therefore valid at every clock reading. It is \<open>- 1\<close> for \<open>NoTTL\<close>,
  and \<open>0\<close> only when \<open>ttl\<close> is \<open>0\<close>.
\<close>

theorem Set_stores_entry:
  assumes "array_ok g"
  shows "(\<exists>g'. SetWithExpire h now g key v ttl = Inr g' \<and>
            entry_of h g' key = Some \<lparr>expire = (if 0 <s ttl then now + ttl else ttl), val = v\<rparr> \<and>
            l g' = l g + 1) \<and>
         (\<exists>g'. Set h now g key v = Inr g' \<and>
            entry_of h g' key =
              Some \<lparr>expire = (if 0 <s expire_g g then now + expire_g g else expire_g g), val = v\<rparr> \<and>
            l g' = l g + 1) \<and>
         (\<not> 0 <s ttl \<longrightarrow> (\<forall>t. isValid t \<lparr>expire = ttl, val = v\<rparr>)) \<and>
         (\<exists>g'. SetWithExpire h now g key v NoTTL = Inr g' \<and>
            entry_of h g' key = Some \<lparr>expire = - 1, val = v\<rparr>)"
proof -
  have a: "\<exists>g'. SetWithExpire h now g key v ttl = Inr g' \<and>
            entry_of h g' key = Some \<lparr>expire = (if 0 <s ttl then now + ttl else ttl), val = v\<rparr> \<and>
            l g' = l g + 1"
    using SetWithExpire_ok [OF assms, of h now key v ttl] by blast
  have b: "\<exists>g'. Set h now g key v = Inr g' \<and>
            entry_of h g' key =
              Some \<lparr>expire = (if 0 <s expire_g g then now + expire_g g else expire_g g), val = v\<rparr> \<and>
            l g' = l g + 1"
    using SetWithExpire_ok [OF assms, of h now key v "expire_g g"] unfolding Set_unfold by blast
  have c: "\<not> 0 <s ttl \<longrightarrow> (\<forall>t. isValid t \<lparr>expire = ttl, val = v\<rparr>)"
    by (simp add: never_expires)
  have d: "\<exists>g'. SetWithExpire h now g key v NoTTL = Inr g' \<and>
            entry_of h g' key = Some \<lparr>expire = - 1, val = v\<rparr>"
    using SetWithExpire_ok [OF assms, of h now key v NoTTL] by (auto simp add: NoTTL_def)
  show ?thesis using a b c d by blast
qed

theorem Set_stores_entry_witness:
  "array_ok (New [] :: nat gache) \<and>
   map_sum id (\<lambda>g'. (entry_of hash_len g' ''a'', l g'))
     (SetWithExpire hash_len 5 (New [] :: nat gache) ''a'' 7 3)
     = Inr (Some \<lparr>expire = 8, val = 7\<rparr>, 1) \<and>
   map_sum id (\<lambda>g'. (entry_of hash_len g' ''a'', l g'))
     (Set hash_len 5 (New [] :: nat gache) ''a'' 7)
     = Inr (Some \<lparr>expire = 30000000005, val = 7\<rparr>, 1) \<and>
   \<not> 0 <s (0 :: int64) \<and> isValid 9 \<lparr>expire = 0, val = 7 :: nat\<rparr>"
  using Set_stores_entry [OF array_ok_New [of "[] :: (nat gache \<Rightarrow> nat gache) list"],
        where h = hash_len and key = "''a''" and now = 5 and v = 7 and ttl = 3]
    Set_stores_entry [OF array_ok_New [of "[] :: (nat gache \<Rightarrow> nat gache) list"],
        where h = hash_len and key = "''a''" and now = 5 and v = 7 and ttl = 0]
  by (auto simp add: array_ok_New New_nil_fields second_def word_sless_alt)

theorem Set_NoTTL_expire_counterexample:
  "SetWithExpire hash_len 5 (New [] :: nat gache) ''a'' 7 NoTTL =
     Inr ((New [])\<lparr>l := 1, shards := (replicate slen newMap)
        [1 := [(''a'', \<lparr>expire = - 1, val = 7\<rparr>)]]\<rparr>) \<and>
   GetWithExpire hash_len 0 9 ((New [] :: nat gache)\<lparr>l := 1, shards := (replicate slen newMap)
        [1 := [(''a'', \<lparr>expire = - 1, val = 7\<rparr>)]]\<rparr>) ''a''
     = Inr ((7, - 1, True), (New [])\<lparr>l := 1, shards := (replicate slen newMap)
        [1 := [(''a'', \<lparr>expire = - 1, val = 7\<rparr>)]]\<rparr>) \<and>
   (- 1 :: int64) \<noteq> 0"
proof -
  let ?g = "(New [] :: nat gache)\<lparr>l := 1, shards := (replicate slen newMap)
        [1 := [(''a'', \<lparr>expire = - 1, val = 7\<rparr>)]]\<rparr>"
  have s: "SetWithExpire hash_len 5 (New [] :: nat gache) ''a'' 7 NoTTL = Inr ?g"
    by (simp add: SetWithExpire_def set_sample NoTTL_def)
  have ok: "array_ok ?g"
    by (simp add: array_ok_def New_nil_fields)
  have e: "entry_of hash_len ?g ''a'' = Some \<lparr>expire = - 1, val = 7\<rparr>"
    by (simp add: entry_of_def sample_idx slen_def)
  have v: "isValid 9 \<lparr>expire = - 1, val = 7 :: nat\<rparr>"
    by (simp add: never_expires)
  have "GetWithExpire hash_len 0 9 ?g ''a'' = Inr ((7, - 1, True), ?g)"
    unfolding GetWithExpire_def get_unfold [OF ok] e using v by simp
  with s show ?thesis by simp
qed

section \<open>Delete\<close>

lemma delete_absent: "map_of al k = None \<Longrightarrow> AList.delete k al = al"
  by (induction al) (auto split: if_splits)

lemma Delete_absent:
  assumes "array_ok g" "entry_of h g key = None"
  shows "Delete h g key = Inr (False, g\<lparr>l := l g - 1\<rparr>)"
  using assms by (simp add: Delete_ok delete_absent entry_of_def)

lemma Delete_present:
  assumes "array_ok g" "entry_of h g key = Some e"
  shows "\<exists>g'. Delete h g key = Inr (True, g') \<and> entry_of h g' key = None \<and> l g' = l g - 1 \<and>
           (\<forall>j. j \<noteq> shard_idx h key \<longrightarrow> shards g' ! j = shards g ! j)"
  using assms by (simp add: Delete_ok entry_of_upd_same delete_conv')

text \<open>
  C4. On a fresh cache, which holds no key and has \<open>Len = 0\<close>, \<open>Delete\<close> of the absent
  key \<open>''a''\<close> returns \<open>False\<close> and leaves the shards as they are, but the size counter
  has wrapped to \<open>2 ^ 64 - 1\<close>, so that \<open>Len\<close> is \<open>- 1\<close>: \<open>Delete\<close> subtracts one from the
  counter before it knows whether the key was there.
\<close>

theorem Delete_absent_decrements_Len:
  "Len (New [] :: nat gache) = 0 \<and>
   entry_of hash_len (New [] :: nat gache) ''a'' = None \<and>
   Delete hash_len (New [] :: nat gache) ''a'' = Inr (False, (New [])\<lparr>l := - 1\<rparr>) \<and>
   Len ((New [] :: nat gache)\<lparr>l := - 1\<rparr>) = - 1"
proof -
  have e: "entry_of hash_len (New [] :: nat gache) ''a'' = None"
    by (simp add: entry_of_def New_nil_fields sample_idx slen_def newMap_def)
  have "Delete hash_len (New [] :: nat gache) ''a'' = Inr (False, (New [])\<lparr>l := - 1\<rparr>)"
    using Delete_absent [OF array_ok_New e] by (simp add: New_nil_fields)
  with e show ?thesis
    by (simp add: Len_def New_nil_fields)
qed

section \<open>Signed 64-bit addition\<close>

lemma sint_add_exact:
  fixes a b :: int64
  assumes "- (2 ^ 63) \<le> sint a + sint b" "sint a + sint b < 2 ^ 63"
  shows "sint (a + b) = sint a + sint b"
  using assms
  by (simp add: sint_word_ariths signed_take_bit_int_eq_self)

lemma sint_add_wrapped:
  fixes a b :: int64
  assumes "2 ^ 63 \<le> sint a + sint b"
  shows "sint (a + b) < 0"
proof -
  have "sint (a + b) = signed_take_bit 63 (sint a + sint b)"
    by (simp add: sint_word_ariths)
  also have "\<dots> \<le> (sint a + sint b) - 2 ^ Suc 63"
    using assms by (rule signed_take_bit_int_less_eq)
  finally have "sint (a + b) \<le> (sint a + sint b) - 2 ^ 64"
    by simp
  moreover have "sint a < 2 ^ 63" "sint b < 2 ^ 63"
    using sint_lt [of a] sint_lt [of b] by simp_all
  ultimately show ?thesis by simp
qed

lemma isValid_sint:
  "isValid now e \<longleftrightarrow> sint (expire e) \<le> 0 \<or> sint now \<le> sint (expire e)"
  by (simp add: isValid_def word_sle_eq)

lemma valid_within_ttl:
  assumes "0 <s ttl" "sint t1 \<le> sint t0 + sint ttl"
  shows "isValid t1 \<lparr>expire = t0 + ttl, val = v\<rparr>"
proof (cases "sint t0 + sint ttl < 2 ^ 63")
  case True
  have "0 < sint ttl"
    using assms(1) by (simp add: word_sless_alt)
  moreover have "- (2 ^ 63) \<le> sint t0"
    using sint_ge [of t0] by simp
  ultimately have "sint (t0 + ttl) = sint t0 + sint ttl"
    using True by (intro sint_add_exact) linarith+
  then show ?thesis
    using assms(2) by (simp add: isValid_sint)
next
  case False
  then have "sint (t0 + ttl) < 0"
    by (intro sint_add_wrapped) simp
  then show ?thesis
    by (simp add: isValid_sint)
qed

lemma expired_after_ttl:
  assumes "0 <s ttl" "0 \<le>s t0" "sint t0 + sint ttl < sint t2"
  shows "\<not> isValid t2 \<lparr>expire = t0 + ttl, val = v\<rparr>"
proof -
  have p: "0 < sint ttl" "0 \<le> sint t0"
    using assms(1,2) by (simp_all add: word_sless_alt word_sle_eq)
  have "sint t2 < 2 ^ 63"
    using sint_lt [of t2] by simp
  then have "sint (t0 + ttl) = sint t0 + sint ttl"
    using p assms(3) by (intro sint_add_exact) linarith+
  then show ?thesis
    using p assms(3) by (simp add: isValid_sint)
qed

section \<open>Reads and the expiration check\<close>

lemma get_absent:
  "array_ok g \<Longrightarrow> entry_of h g key = None \<Longrightarrow> get h z now g key = Inr ((z, 0, False), g)"
  by (simp add: get_unfold)

lemma get_valid:
  "array_ok g \<Longrightarrow> entry_of h g key = Some e \<Longrightarrow> isValid now e
     \<Longrightarrow> get h z now g key = Inr ((val e, expire e, True), g)"
  by (simp add: get_unfold)

lemma get_expired:
  "array_ok g \<Longrightarrow> entry_of h g key = Some e \<Longrightarrow> \<not> isValid now e
     \<Longrightarrow> get h z now g key =
         (case expiration h g key of Inl f \<Rightarrow> Inl f | Inr g' \<Rightarrow> Inr ((z, expire e, False), g'))"
  by (simp add: get_unfold)

lemma expiration_room:
  assumes "array_ok g" "hook_room g"
  shows "\<exists>g'. expiration h g key = Inr g' \<and> array_ok g' \<and> entry_of h g' key = None \<and>
           l g' = l g - 1 \<and>
           (\<forall>j. j \<noteq> shard_idx h key \<longrightarrow> shards g' ! j = shards g ! j)"
  using assms
  by (auto simp add: expiration_ok Let_def hook_room_def send_def entry_of_def shard_idx_lt
      array_ok_def delete_conv')

lemma expiration_blocked:
  assumes "array_ok g" "\<not> hook_room g"
  shows "expiration h g key = Inl SendBlocked"
  using assms
  by (auto simp add: expiration_ok Let_def hook_room_def send_def)

lemma range_shard_inv:
  assumes "range_shard h c now f (g, a) es = Inr (g', a')" "Q a"
    and "\<And>k e b. isValid now e \<Longrightarrow> Q b \<Longrightarrow> Q (snd (f k (val e) (expire e) b))"
  shows "Q a'"
  using assms(1,2)
proof (induction es arbitrary: g a)
  case Nil
  then show ?case by simp
next
  case (Cons x es)
  obtain k e where x: "x = (k, e)" by (cases x)
  show ?case
  proof (cases "c")
    case True
    with Cons.prems x show ?thesis by simp
  next
    case nc: False
    show ?thesis
    proof (cases "isValid now e")
      case True
      obtain b a1 where fa: "f k (val e) (expire e) a = (b, a1)"
        by (cases "f k (val e) (expire e) a")
      have q1: "Q a1"
        using assms(3) [OF True Cons.prems(2), of k] fa by simp
      show ?thesis
      proof (cases b)
        case True
        with Cons.prems(1) x nc \<open>isValid now e\<close> fa
        have "range_shard h c now f (g, a1) es = Inr (g', a')" by simp
        then show ?thesis using q1 by (rule Cons.IH)
      next
        case False
        with Cons.prems(1) x nc \<open>isValid now e\<close> fa q1 show ?thesis by simp
      qed
    next
      case False
      with Cons.prems(1) x nc obtain g1 where
        "range_shard h c now f (g1, a) es = Inr (g', a')"
        by (auto split: sum.splits)
      then show ?thesis using Cons.prems(2) by (rule Cons.IH)
    qed
  qed
qed

lemma range_shards_inv:
  assumes "range_shards h c now f (g, a) idxs = Inr (g', a')" "Q a"
    and "\<And>k e b. isValid now e \<Longrightarrow> Q b \<Longrightarrow> Q (snd (f k (val e) (expire e) b))"
  shows "Q a'"
  using assms(1,2)
proof (induction idxs arbitrary: g a)
  case Nil
  then show ?case by simp
next
  case (Cons i idxs)
  from Cons.prems(1) obtain g1 a1 where
    s: "range_shard h c now f (g, a) (shards g ! i) = Inr (g1, a1)"
    and r: "range_shards h c now f (g1, a1) idxs = Inr (g', a')"
    by (auto split: sum.splits)
  have "Q a1"
    using s Cons.prems(2) assms(3) by (rule range_shard_inv)
  with r show ?case by (rule Cons.IH)
qed

lemma Range_g_inv:
  assumes "Range_g h c now f g a = Inr (g', a')" "Q a"
    and "\<And>k e b. isValid now e \<Longrightarrow> Q b \<Longrightarrow> Q (snd (f k (val e) (expire e) b))"
  shows "Q a'"
  using assms unfolding Range_g_def by (rule range_shards_inv)

lemma Get_never:
  assumes "array_ok g"
  shows "\<exists>g1. SetWithExpire h now g key v NoTTL = Inr g1 \<and>
           (\<forall>t. Get h z t g1 key = Inr ((v, True), g1))"
proof -
  from SetWithExpire_ok [OF assms, of h now key v NoTTL] obtain g1 where
    s: "SetWithExpire h now g key v NoTTL = Inr g1" and ok: "array_ok g1"
    and e: "entry_of h g1 key = Some \<lparr>expire = - 1, val = v\<rparr>"
    by (auto simp add: NoTTL_def)
  have "Get h z t g1 key = Inr ((v, True), g1)" for t
    using get_valid [OF ok e, of t z] by (simp add: Get_unfold never_expires)
  with s show ?thesis by blast
qed

text \<open>The sample cache \<open>sample_two\<close>, run at clock reading 9.\<close>

lemma range_shards_all_empty:
  "\<forall>i \<in> set idxs. shards g ! i = [] \<Longrightarrow> range_shards h c now f (g, a) idxs = Inr (g, a)"
  by (induction idxs) simp_all

lemma upt_split2: "[0..<slen] = 0 # 1 # [2..<slen]"
proof -
  have "[0..<slen] = 0 # [Suc 0..<slen]"
    by (rule upt_conv_Cons) (simp add: slen_def)
  also have "[Suc 0..<slen] = Suc 0 # [Suc (Suc 0)..<slen]"
    by (rule upt_conv_Cons) (simp add: slen_def)
  finally show ?thesis
    by (simp add: numeral_2_eq_2)
qed

lemma sample_two_fields:
  "array_ok sample_two \<and> shards sample_two ! 0 = [] \<and>
   shards sample_two ! 1 = [(''a'', \<lparr>expire = - 1, val = 7\<rparr>), (''b'', \<lparr>expire = 4, val = 8\<rparr>)] \<and>
   length (shards sample_two) = slen \<and> \<not> expFuncEnabled sample_two \<and> l sample_two = 2"
  by (simp add: sample_two_def array_ok_def New_nil_fields slen_def newMap_def)

lemma sample_idx_b: "shard_idx hash_len ''b'' = 1" "shard_idx hash_len ''c'' = 1"
  by (simp_all add: shard_idx_def hash_len_def mask_g_def)

lemma sample_two_expiration:
  "expiration hash_len sample_two ''b'' =
     Inr (sample_two\<lparr>l := 1, shards := (shards sample_two)[1 := [(''a'', \<lparr>expire = - 1, val = 7\<rparr>)]]\<rparr>)"
  using sample_two_fields
  by (simp add: expiration_ok Let_def sample_idx_b)

lemma sample_two_Range:
  "Range_g hash_len False 9 record_call sample_two [] =
     Inr (sample_two\<lparr>l := 1, shards := (shards sample_two)[1 := [(''a'', \<lparr>expire = - 1, val = 7\<rparr>)]]\<rparr>,
          [(''a'', 7, - 1)])"
proof -
  let ?g' = "sample_two\<lparr>l := 1, shards := (shards sample_two)[1 := [(''a'', \<lparr>expire = - 1, val = 7\<rparr>)]]\<rparr>"
  have s0: "range_shard hash_len False 9 record_call (sample_two, []) (shards sample_two ! 0)
      = Inr (sample_two, [])"
    using sample_two_fields by simp
  have s1: "range_shard hash_len False 9 record_call (sample_two, []) (shards sample_two ! 1)
      = Inr (?g', [(''a'', 7, - 1)])"
    using sample_two_fields
    by (simp add: isValid_sint record_call_def sample_two_expiration)
  have "\<forall>i \<in> set [2..<slen]. shards ?g' ! i = []"
    by (simp add: sample_two_def newMap_def)
  then have s2: "range_shards hash_len False 9 record_call (?g', [(''a'', 7, - 1)]) [2..<slen]
      = Inr (?g', [(''a'', 7, - 1)])"
    by (rule range_shards_all_empty)
  show ?thesis
    unfolding Range_g_def
    using s0 s1 s2 sample_two_fields by (simp add: upt_split2)
qed

lemma sample_two_entries:
  "entry_of hash_len sample_two ''a'' = Some \<lparr>expire = - 1, val = 7\<rparr> \<and>
   entry_of hash_len sample_two ''b'' = Some \<lparr>expire = 4, val = 8\<rparr> \<and>
   entry_of hash_len sample_two ''c'' = None"
  using sample_two_fields by (simp add: entry_of_def sample_idx sample_idx_b)

lemma sample_validity:
  "isValid 9 \<lparr>expire = - 1, val = 7 :: nat\<rparr> \<and> \<not> isValid 9 \<lparr>expire = 4, val = 8 :: nat\<rparr>"
  by (simp add: isValid_sint)

section \<open>Expiration\<close>

lemma Get_after_expiry:
  assumes ok: "array_ok g1" and e: "entry_of h g1 k = Some ent" and inv: "\<not> isValid t2 ent"
    and room: "hook_room g1"
  shows "\<exists>g2. Get h z t2 g1 k = Inr ((z, False), g2) \<and> entry_of h g2 k = None \<and>
           l g2 = l g1 - 1 \<and> (\<forall>t3. Get h z t3 g2 k = Inr ((z, False), g2))"
proof -
  from expiration_room [OF ok room, of h k] obtain g2 where
    x: "expiration h g1 k = Inr g2" and ok2: "array_ok g2" and e2: "entry_of h g2 k = None"
    and l2: "l g2 = l g1 - 1"
    by blast
  have "Get h z t2 g1 k = Inr ((z, False), g2)"
    using get_expired [OF ok e inv, of z] x by (simp add: Get_unfold)
  moreover have "Get h z t3 g2 k = Inr ((z, False), g2)" for t3
    using get_absent [OF ok2 e2, of z t3] by (simp add: Get_unfold)
  ultimately show ?thesis using e2 l2 by blast
qed

lemma Get_expired_blocked:
  assumes ok: "array_ok g1" and e: "entry_of h g1 k = Some ent" and inv: "\<not> isValid t2 ent"
    and room: "\<not> hook_room g1"
  shows "Get h z t2 g1 k = Inl SendBlocked"
  using get_expired [OF ok e inv, of z] expiration_blocked [OF ok room, of h k]
  by (simp add: Get_unfold)

lemma New_hook_fields:
  "shards (New [EnableExpiredHook]) = replicate slen newMap \<and> l (New [EnableExpiredHook]) = 0 \<and>
   expFuncEnabled (New [EnableExpiredHook]) \<and>
   expChan (New [EnableExpiredHook]) = make_chan (slen * 10)"
  by (simp add: New_def Let_def WithDefaultExpiration_def SetDefaultExpire_def zero_gache_def
      EnableExpiredHook_def)

section \<open>Routing\<close>

lemma set_then_get:
  assumes "array_ok g"
  shows "\<exists>g'. set_g h now g key v ex = Inr g' \<and> array_ok g' \<and>
           entry_of h g' key = Some \<lparr>expire = (if 0 <s ex then now + ex else ex), val = v\<rparr> \<and>
           (\<forall>j. j \<noteq> shard_idx h key \<longrightarrow> shards g' ! j = shards g ! j) \<and>
           get h z now g' key = Inr ((v, (if 0 <s ex then now + ex else ex), True), g') \<and>
           Get h z now g' key = Inr ((v, True), g')"
proof -
  let ?e = "\<lparr>expire = (if 0 <s ex then now + ex else ex), val = v\<rparr>"
  let ?g' = "g\<lparr>l := l g + 1,
     shards := (shards g)[shard_idx h key := AList.update key ?e (shards g ! shard_idx h key)]\<rparr>"
  have s: "set_g h now g key v ex = Inr ?g'"
    using assms by (simp add: set_g_ok)
  have ok: "array_ok ?g'"
    using assms by (rule array_ok_upd)
  have e: "entry_of h ?g' key = Some ?e"
    using assms by (simp add: entry_of_upd_same update_conv')
  have valid: "isValid now ?e"
  proof (cases "0 <s ex")
    case True
    then have "0 < sint ex" by (simp add: word_sless_alt)
    then have "sint now \<le> sint now + sint ex" by simp
    with True show ?thesis
      using valid_within_ttl [of ex now now v] by simp
  next
    case False
    then show ?thesis by (simp add: never_expires)
  qed
  have gt: "get h z now ?g' key = Inr ((v, (if 0 <s ex then now + ex else ex), True), ?g')"
    using get_valid [OF ok e valid, of z] by simp
  then have "Get h z now ?g' key = Inr ((v, True), ?g')"
    by (simp add: Get_unfold)
  moreover have "\<forall>j. j \<noteq> shard_idx h key \<longrightarrow> shards ?g' ! j = shards g ! j"
    by simp
  ultimately show ?thesis
    using s ok e gt by blast
qed

lemma Delete_then_get:
  assumes "array_ok g"
  shows "\<exists>b g'. Delete h g key = Inr (b, g') \<and> (b \<longleftrightarrow> entry_of h g key \<noteq> None) \<and>
           array_ok g' \<and> entry_of h g' key = None \<and>
           (\<forall>j. j \<noteq> shard_idx h key \<longrightarrow> shards g' ! j = shards g ! j) \<and>
           get h z now g' key = Inr ((z, 0, False), g') \<and>
           Get h z now g' key = Inr ((z, False), g')"
proof -
  let ?g' = "g\<lparr>l := l g + NOT 0,
     shards := (shards g)[shard_idx h key := AList.delete key (shards g ! shard_idx h key)]\<rparr>"
  have d: "Delete h g key = Inr (entry_of h g key \<noteq> None, ?g')"
    using assms by (rule Delete_ok)
  have ok: "array_ok ?g'"
    using assms by (rule array_ok_upd)
  have e: "entry_of h ?g' key = None"
    using assms by (simp add: entry_of_upd_same delete_conv')
  have gt: "get h z now ?g' key = Inr ((z, 0, False), ?g')"
    using ok e by (rule get_absent)
  then have "Get h z now ?g' key = Inr ((z, False), ?g')"
    by (simp add: Get_unfold)
  moreover have "\<forall>j. j \<noteq> shard_idx h key \<longrightarrow> shards ?g' ! j = shards g ! j"
    by simp
  ultimately show ?thesis
    using d ok e gt by blast
qed

text \<open>
  C8. The shard count is the power of two \<open>2 ^ 9 = 512\<close> and the mask is the shard count
  minus one, so the index \<open>hash(key) & mask\<close> of every key is below the shard count and
  indexing the shard array never panics. \<open>get\<close>, \<open>set\<close> and \<open>Delete\<close> of a key address
  the same shard, the one at that index. \<open>get\<close> answers from what this shard holds for
  the key: "not found" when it holds nothing, the value and expiration of the entry
  when it holds a valid one, and it does not depend on any other shard. \<open>set\<close> and
  \<open>Delete\<close> leave every other shard as it was; after \<open>set\<close>, \<open>get\<close> and \<open>Get\<close> of the key
  at the same clock reading return the value just stored; \<open>Delete\<close> reports whether this
  shard held the key, and after it \<open>get\<close> and \<open>Get\<close> of the key return "not found";
  a \<open>Delete\<close> after a \<open>set\<close> of the key reports \<open>True\<close>.
\<close>

theorem shard_routing_in_bounds:
  assumes "array_ok g"
  shows "slen = 2 ^ 9 \<and> unat mask_g = slen - 1 \<and>
         shard_idx h key < slen \<and> shard_idx h key < length (shards g) \<and>
         get h z now g key \<noteq> Inl IndexOutOfRange \<and>
         (map_of (shards g ! shard_idx h key) key = None \<longrightarrow>
            get h z now g key = Inr ((z, 0, False), g)) \<and>
         (\<forall>e. map_of (shards g ! shard_idx h key) key = Some e \<and> isValid now e \<longrightarrow>
            get h z now g key = Inr ((val e, expire e, True), g)) \<and>
         (\<forall>j s. j \<noteq> shard_idx h key \<longrightarrow>
            map_sum id fst (get h z now (g\<lparr>shards := (shards g)[j := s]\<rparr>) key)
              = map_sum id fst (get h z now g key)) \<and>
         (\<exists>g'. set_g h now g key v ex = Inr g' \<and>
            entry_of h g' key = Some \<lparr>expire = (if 0 <s ex then now + ex else ex), val = v\<rparr> \<and>
            (\<forall>j. j \<noteq> shard_idx h key \<longrightarrow> shards g' ! j = shards g ! j) \<and>
            get h z now g' key = Inr ((v, (if 0 <s ex then now + ex else ex), True), g') \<and>
            Get h z now g' key = Inr ((v, True), g') \<and>
            (\<exists>g''. Delete h g' key = Inr (True, g'') \<and>
               get h z now g'' key = Inr ((z, 0, False), g''))) \<and>
         (\<exists>b g'. Delete h g key = Inr (b, g') \<and> (b \<longleftrightarrow> entry_of h g key \<noteq> None) \<and>
            entry_of h g' key = None \<and>
            (\<forall>j. j \<noteq> shard_idx h key \<longrightarrow> shards g' ! j = shards g ! j) \<and>
            get h z now g' key = Inr ((z, 0, False), g') \<and>
            Get h z now g' key = Inr ((z, False), g'))"
proof -
  have c1: "slen = 2 ^ 9 \<and> unat mask_g = slen - 1"
    by (simp add: slen_def mask_g_def)
  have c2: "\<forall>j s. j \<noteq> shard_idx h key \<longrightarrow>
            map_sum id fst (get h z now (g\<lparr>shards := (shards g)[j := s]\<rparr>) key)
              = map_sum id fst (get h z now g key)"
    using get_other_shard [OF assms] by blast
  have c5: "map_of (shards g ! shard_idx h key) key = None \<longrightarrow>
            get h z now g key = Inr ((z, 0, False), g)"
    using get_absent [OF assms, of h key z now] by (simp add: entry_of_def)
  have c6: "\<forall>e. map_of (shards g ! shard_idx h key) key = Some e \<and> isValid now e \<longrightarrow>
            get h z now g key = Inr ((val e, expire e, True), g)"
    using get_valid [OF assms, of h key _ now z] by (simp add: entry_of_def)
  from set_then_get [OF assms, of h now key v ex z] obtain g' where
    s: "set_g h now g key v ex = Inr g'" and ok': "array_ok g'"
    and s1: "entry_of h g' key = Some \<lparr>expire = (if 0 <s ex then now + ex else ex), val = v\<rparr>"
    and s2: "\<forall>j. j \<noteq> shard_idx h key \<longrightarrow> shards g' ! j = shards g ! j"
    and s3: "get h z now g' key = Inr ((v, (if 0 <s ex then now + ex else ex), True), g')"
    and s4: "Get h z now g' key = Inr ((v, True), g')"
    by blast
  from Delete_then_get [OF ok', of h key z now] s1 obtain g'' where
    "Delete h g' key = Inr (True, g'')" "get h z now g'' key = Inr ((z, 0, False), g'')"
    by auto
  with s s1 s2 s3 s4 have c3: "\<exists>g'. set_g h now g key v ex = Inr g' \<and>
            entry_of h g' key = Some \<lparr>expire = (if 0 <s ex then now + ex else ex), val = v\<rparr> \<and>
            (\<forall>j. j \<noteq> shard_idx h key \<longrightarrow> shards g' ! j = shards g ! j) \<and>
            get h z now g' key = Inr ((v, (if 0 <s ex then now + ex else ex), True), g') \<and>
            Get h z now g' key = Inr ((v, True), g') \<and>
            (\<exists>g''. Delete h g' key = Inr (True, g'') \<and>
               get h z now g'' key = Inr ((z, 0, False), g''))"
    by blast
  have c4: "\<exists>b g'. Delete h g key = Inr (b, g') \<and> (b \<longleftrightarrow> entry_of h g key \<noteq> None) \<and>
            entry_of h g' key = None \<and>
            (\<forall>j. j \<noteq> shard_idx h key \<longrightarrow> shards g' ! j = shards g ! j) \<and>
            get h z now g' key = Inr ((z, 0, False), g') \<and>
            Get h z now g' key = Inr ((z, False), g')"
    using Delete_then_get [OF assms, of h key z now] by blast
  have c7: "shard_idx h key < slen \<and> shard_idx h key < length (shards g) \<and>
         get h z now g key \<noteq> Inl IndexOutOfRange"
    using shard_idx_lt [of h key] shard_idx_in [OF assms, of h key]
      get_no_panic [OF assms, of h z now key] by simp
  show ?thesis
    by (intro conjI c1 [THEN conjunct1] c1 [THEN conjunct2] c7 [THEN conjunct1]
        c7 [THEN conjunct2, THEN conjunct1] c7 [THEN conjunct2, THEN conjunct2] c5 c6 c2 c3 c4)
qed

theorem shard_routing_in_bounds_witness:
  "array_ok sample_two \<and> shard_idx hash_len ''a'' = 1 \<and> (1::nat) < slen \<and>
   map_of (shards sample_two ! 1) ''a'' = Some \<lparr>expire = - 1, val = 7\<rparr> \<and>
   isValid 9 \<lparr>expire = - 1, val = 7 :: nat\<rparr> \<and>
   get hash_len 0 9 sample_two ''a'' = Inr ((7, - 1, True), sample_two) \<and>
   map_sum id fst (get hash_len 0 9
       (sample_two\<lparr>shards := (shards sample_two)[0 := [(''a'', \<lparr>expire = 0, val = 3\<rparr>)]]\<rparr>) ''a'')
     = Inr (7, - 1, True) \<and>
   map_sum id (\<lambda>g'. map_sum id fst (get hash_len 0 9 g' ''a''))
       (set_g hash_len 9 sample_two ''a'' 5 0)
     = Inr (Inr (5, 0, True)) \<and>
   map_sum id (\<lambda>(b, g'). (b, map_sum id fst (get hash_len 0 9 g' ''a'')))
       (Delete hash_len sample_two ''a'')
     = Inr (True, Inr (0, 0, False))"
proof -
  have ok: "array_ok sample_two"
    using sample_two_fields by simp
  have m: "map_of (shards sample_two ! 1) ''a'' = Some \<lparr>expire = - 1, val = 7\<rparr>"
    using sample_two_fields by simp
  have e: "entry_of hash_len sample_two ''a'' \<noteq> None"
    using sample_two_entries by simp
  have v: "isValid 9 \<lparr>expire = - 1, val = 7 :: nat\<rparr>"
    using sample_validity by simp
  note th = shard_routing_in_bounds [OF ok, where h = hash_len and key = "''a''" and z = 0
      and now = 9 and v = 5 and ex = 0, unfolded sample_idx]
  have found: "\<forall>e. map_of (shards sample_two ! 1) ''a'' = Some e \<and> isValid 9 e \<longrightarrow>
            get hash_len 0 9 sample_two ''a'' = Inr ((val e, expire e, True), sample_two)"
    by (rule th [THEN conjunct2, THEN conjunct2, THEN conjunct2, THEN conjunct2, THEN conjunct2,
          THEN conjunct2, THEN conjunct1])
  have g: "get hash_len 0 9 sample_two ''a'' = Inr ((7, - 1, True), sample_two)"
    using found m v by simp
  have other: "\<forall>j s. j \<noteq> 1 \<longrightarrow>
            map_sum id fst (get hash_len 0 9 (sample_two\<lparr>shards := (shards sample_two)[j := s]\<rparr>) ''a'')
              = map_sum id fst (get hash_len 0 9 sample_two ''a'')"
    by (rule th [THEN conjunct2, THEN conjunct2, THEN conjunct2, THEN conjunct2, THEN conjunct2,
          THEN conjunct2, THEN conjunct2, THEN conjunct1])
  have o: "map_sum id fst (get hash_len 0 9
       (sample_two\<lparr>shards := (shards sample_two)[0 := [(''a'', \<lparr>expire = 0, val = 3\<rparr>)]]\<rparr>) ''a'')
     = Inr (7, - 1, True)"
    using other [rule_format, of 0 "[(''a'', \<lparr>expire = 0, val = 3\<rparr>)]"] g by simp
  have "\<exists>g'. set_g hash_len 9 sample_two ''a'' 5 0 = Inr g' \<and>
     get hash_len 0 9 g' ''a'' = Inr ((5, (if 0 <s (0 :: int64) then 9 + 0 else 0), True), g')"
    using th [THEN conjunct2, THEN conjunct2, THEN conjunct2, THEN conjunct2, THEN conjunct2,
          THEN conjunct2, THEN conjunct2, THEN conjunct2, THEN conjunct1]
    by blast
  then have s: "map_sum id (\<lambda>g'. map_sum id fst (get hash_len 0 9 g' ''a''))
       (set_g hash_len 9 sample_two ''a'' 5 0) = Inr (Inr (5, 0, True))"
    by (auto simp add: word_sless_alt)
  have "\<exists>b g'. Delete hash_len sample_two ''a'' = Inr (b, g') \<and>
     (b \<longleftrightarrow> entry_of hash_len sample_two ''a'' \<noteq> None) \<and>
     get hash_len 0 9 g' ''a'' = Inr ((0, 0, False), g')"
    using th [THEN conjunct2, THEN conjunct2, THEN conjunct2, THEN conjunct2, THEN conjunct2,
          THEN conjunct2, THEN conjunct2, THEN conjunct2, THEN conjunct2]
    by blast
  then have d: "map_sum id (\<lambda>(b, g'). (b, map_sum id fst (get hash_len 0 9 g' ''a'')))
       (Delete hash_len sample_two ''a'') = Inr (True, Inr (0, 0, False))"
    using e by auto
  show ?thesis
    using ok m v g o s d by (simp add: sample_idx slen_def)
qed

section \<open>What Range delivers\<close>

lemma expiration_frame:
  assumes "array_ok g" "expiration h g k = Inr g1"
  shows "array_ok g1 \<and> expFuncEnabled g1 = expFuncEnabled g \<and>
         (\<forall>j. j \<noteq> shard_idx h k \<longrightarrow> shards g1 ! j = shards g ! j)"
  using assms
  by (auto simp add: expiration_ok Let_def array_ok_def split: if_splits option.splits)

lemma expiration_no_hook:
  assumes "array_ok g" "\<not> expFuncEnabled g"
  shows "\<exists>g1. expiration h g k = Inr g1"
  using assms by (simp add: expiration_ok Let_def)

lemma range_shard_cancelled: "range_shard h True now f (g, a) es = Inr (g, a)"
  by (cases es) auto

lemma range_shards_cancelled: "range_shards h True now f (g, a) idxs = Inr (g, a)"
  by (induction idxs) (simp_all add: range_shard_cancelled)

lemma range_shard_exact:
  assumes "\<And>k v ex b. fst (f k v ex b)"
    and "array_ok g" "\<forall>(k, e) \<in> set es. shard_idx h k = i"
    and "range_shard h False now f (g, a) es = Inr (g', a')"
  shows "a' = fold (\<lambda>(k, e) b. snd (f k (val e) (expire e) b))
                (filter (\<lambda>(k, e). isValid now e) es) a \<and>
         array_ok g' \<and> (\<forall>j. j \<noteq> i \<longrightarrow> shards g' ! j = shards g ! j)"
  using assms(2-4)
proof (induction es arbitrary: g a)
  case Nil
  then show ?case by simp
next
  case (Cons x es)
  obtain k e where x: "x = (k, e)" by (cases x)
  have rest: "\<forall>(k, e) \<in> set es. shard_idx h k = i" and ki: "shard_idx h k = i"
    using Cons.prems(2) x by simp_all
  show ?case
  proof (cases "isValid now e")
    case True
    obtain b a1 where fa: "f k (val e) (expire e) a = (b, a1)"
      by (cases "f k (val e) (expire e) a")
    have b: "b"
      using assms(1) [of k "val e" "expire e" a] fa by simp
    have "range_shard h False now f (g, a1) es = Inr (g', a')"
      using Cons.prems(3) x True fa b by simp
    from Cons.IH [OF Cons.prems(1) rest this] show ?thesis
      using x True fa by simp
  next
    case False
    with Cons.prems(3) x obtain g1 where
      ex: "expiration h g k = Inr g1"
      and r: "range_shard h False now f (g1, a) es = Inr (g', a')"
      by (auto split: sum.splits)
    from expiration_frame [OF Cons.prems(1) ex] ki have
      ok1: "array_ok g1" and fr: "\<forall>j. j \<noteq> i \<longrightarrow> shards g1 ! j = shards g ! j"
      by simp_all
    from Cons.IH [OF ok1 rest r] fr show ?thesis
      using x False by simp
  qed
qed

lemma range_shard_returns:
  assumes "array_ok g" "\<not> expFuncEnabled g"
  shows "\<exists>g' a'. range_shard h c now f (g, a) es = Inr (g', a') \<and> array_ok g' \<and>
           \<not> expFuncEnabled g'"
  using assms
proof (induction es arbitrary: g a)
  case Nil
  then show ?case by simp
next
  case (Cons x es)
  obtain k e where x: "x = (k, e)" by (cases x)
  show ?case
  proof (cases "c \<or> isValid now e")
    case True
    obtain b a1 where fa: "f k (val e) (expire e) a = (b, a1)"
      by (cases "f k (val e) (expire e) a")
    from Cons.IH [OF Cons.prems, of a1] show ?thesis
      using True x fa Cons.prems by (cases b) auto
  next
    case False
    from expiration_no_hook [OF Cons.prems, of h k] obtain g1 where
      ex: "expiration h g k = Inr g1" by blast
    from expiration_frame [OF Cons.prems(1) ex] Cons.prems(2) have
      "array_ok g1" "\<not> expFuncEnabled g1" by simp_all
    from Cons.IH [OF this, of a] show ?thesis
      using False x ex by simp
  qed
qed

lemma range_shards_exact:
  assumes "\<And>k v ex b. fst (f k v ex b)"
    and "array_ok g" "distinct idxs"
    and "\<forall>i \<in> set idxs. i < length (shards g) \<and> (\<forall>(k, e) \<in> set (shards g ! i). shard_idx h k = i)"
    and "range_shards h False now f (g, a) idxs = Inr (g', a')"
  shows "a' = fold (\<lambda>(k, e) b. snd (f k (val e) (expire e) b))
                (filter (\<lambda>(k, e). isValid now e) (concat (map (\<lambda>i. shards g ! i) idxs))) a"
  using assms(2-5)
proof (induction idxs arbitrary: g a)
  case Nil
  then show ?case by simp
next
  case (Cons i idxs)
  from Cons.prems(4) obtain g1 a1 where
    s: "range_shard h False now f (g, a) (shards g ! i) = Inr (g1, a1)"
    and r: "range_shards h False now f (g1, a1) idxs = Inr (g', a')"
    by (auto split: sum.splits)
  have ri: "\<forall>(k, e) \<in> set (shards g ! i). shard_idx h k = i"
    using Cons.prems(3) by simp
  from range_shard_exact [OF assms(1) Cons.prems(1) ri s] have
    a1: "a1 = fold (\<lambda>(k, e) b. snd (f k (val e) (expire e) b))
                (filter (\<lambda>(k, e). isValid now e) (shards g ! i)) a"
    and ok1: "array_ok g1" and fr: "\<forall>j. j \<noteq> i \<longrightarrow> shards g1 ! j = shards g ! j"
    by simp_all
  have ni: "i \<notin> set idxs" and d: "distinct idxs"
    using Cons.prems(2) by simp_all
  have same: "\<forall>j \<in> set idxs. shards g1 ! j = shards g ! j"
    using fr ni by auto
  have len: "length (shards g1) = length (shards g)"
    using ok1 Cons.prems(1) by (simp add: array_ok_def)
  have r1: "\<forall>j \<in> set idxs. j < length (shards g1) \<and>
      (\<forall>(k, e) \<in> set (shards g1 ! j). shard_idx h k = j)"
    using Cons.prems(3) same len by simp
  have cc: "map (\<lambda>j. shards g1 ! j) idxs = map (\<lambda>j. shards g ! j) idxs"
    using same by simp
  from Cons.IH [OF ok1 d r1 r] show ?case
    by (simp add: a1 cc)
qed

lemma range_shards_returns:
  assumes "array_ok g" "\<not> expFuncEnabled g"
  shows "\<exists>g' a'. range_shards h c now f (g, a) idxs = Inr (g', a')"
  using assms
proof (induction idxs arbitrary: g a)
  case Nil
  then show ?case by simp
next
  case (Cons i idxs)
  from range_shard_returns [OF Cons.prems, of h c now f a "shards g ! i"] obtain g1 a1 where
    "range_shard h c now f (g, a) (shards g ! i) = Inr (g1, a1)" "array_ok g1"
    "\<not> expFuncEnabled g1" by blast
  with Cons.IH [of g1 a1] show ?case by simp
qed

lemma Range_g_exact:
  assumes "\<And>k v ex b. fst (f k v ex b)" "array_ok g" "routed h g"
    and "Range_g h False now f g a = Inr (g', a')"
  shows "a' = fold (\<lambda>(k, e) b. snd (f k (val e) (expire e) b))
                (filter (\<lambda>(k, e). isValid now e) (concat (shards g))) a"
proof -
  have r: "\<forall>i \<in> set [0..<length (shards g)].
      i < length (shards g) \<and> (\<forall>(k, e) \<in> set (shards g ! i). shard_idx h k = i)"
    using assms(3) by (simp add: routed_def)
  have "a' = fold (\<lambda>(k, e) b. snd (f k (val e) (expire e) b))
                (filter (\<lambda>(k, e). isValid now e)
                   (concat (map (\<lambda>i. shards g ! i) [0..<length (shards g)]))) a"
    using assms(1,2) distinct_upt r assms(4) [unfolded Range_g_def]
    by (rule range_shards_exact)
  then show ?thesis
    by (simp add: map_nth)
qed

lemma Range_g_returns:
  assumes "array_ok g" "\<not> expFuncEnabled g"
  shows "\<exists>g' a'. Range_g h c now f g a = Inr (g', a')"
  unfolding Range_g_def using assms by (rule range_shards_returns)

lemma fold_record_call:
  "fold (\<lambda>(k, e) b. snd (record_call k (val e) (expire e) b)) es a =
     a @ map (\<lambda>(k, e). (k, val e, expire e)) es"
  by (induction es arbitrary: a) (auto simp add: record_call_def)

lemma Range_g_record:
  assumes "array_ok g" "routed h g"
    and "Range_g h False now record_call g a = Inr (g', a')"
  shows "a' = a @ map (\<lambda>(k, e). (k, val e, expire e))
                    (filter (\<lambda>(k, e). isValid now e) (concat (shards g)))"
proof -
  have "\<And>k v ex b. fst (record_call k v ex (b :: (string \<times> 'a \<times> int64) list))"
    by (simp add: record_call_def)
  from Range_g_exact [OF this assms] show ?thesis
    by (simp add: fold_record_call)
qed

text \<open>
  C2. An entry is valid exactly when its expiration, read as a signed number, is at
  most 0 or the clock reading is at most the expiration. The check decides the read
  paths. \<open>get\<close> (behind \<open>Get\<close> and \<open>GetWithExpire\<close>) returns "found", with the value and
  expiration of the entry and the cache untouched, exactly for a stored entry that is
  valid; for a stored entry that is not valid it either blocks in the eviction or
  returns the zero value and "not found". \<open>Range_g\<close> (behind \<open>ToMap\<close>, \<open>ToRawMap\<close> and
  \<open>Write\<close>) with a live context and a callback that always goes on calls the callback
  on exactly the valid entries of the shards, each with its key, value and expiration,
  in the order of the shards, and on no other entry: what it returns is the fold of the
  callback over the valid entries, and the recording callback records exactly the valid
  entries. Every property \<open>Q\<close> of the callback's state that calls on valid entries
  preserve holds when \<open>Range_g\<close> returns, whatever the callback answers. \<open>Range_g\<close>
  returns when the hook is disabled, and with a cancelled context it returns at once
  and calls nothing. A key set with \<open>NoTTL\<close> is returned by \<open>Get\<close> with "found" at every
  later clock reading.
\<close>

theorem isValid_decides_reads:
  assumes "array_ok (g :: 'v gache)"
  shows "(isValid now (e :: 'v gvalue) \<longleftrightarrow> sint (expire e) \<le> 0 \<or> sint now \<le> sint (expire e)) \<and>
         (entry_of h g key = None \<longrightarrow> get h z now g key = Inr ((z, 0, False), g)) \<and>
         (\<forall>e'. entry_of h g key = Some e' \<and> isValid now e' \<longrightarrow>
            get h z now g key = Inr ((val e', expire e', True), g)) \<and>
         (\<forall>e'. entry_of h g key = Some e' \<and> \<not> isValid now e' \<longrightarrow>
            get h z now g key = Inl SendBlocked \<or>
            (\<exists>g'. get h z now g key = Inr ((z, expire e', False), g'))) \<and>
         (\<forall>(f :: string \<Rightarrow> 'v \<Rightarrow> int64 \<Rightarrow> 'b \<Rightarrow> bool \<times> 'b) a g' a' Q.
            Range_g h c now f g a = Inr (g', a') \<and> Q a \<and>
            (\<forall>k e' b. isValid now e' \<and> Q b \<longrightarrow> Q (snd (f k (val e') (expire e') b)))
            \<longrightarrow> Q a') \<and>
         (\<forall>(f :: string \<Rightarrow> 'v \<Rightarrow> int64 \<Rightarrow> 'b \<Rightarrow> bool \<times> 'b) a g' a'.
            routed h g \<and> (\<forall>k v ex b. fst (f k v ex b)) \<and>
            Range_g h False now f g a = Inr (g', a') \<longrightarrow>
            a' = fold (\<lambda>(k, e') b. snd (f k (val e') (expire e') b))
                   (filter (\<lambda>(k, e'). isValid now e') (concat (shards g))) a) \<and>
         (\<forall>a g' a'. routed h g \<and> Range_g h False now record_call g a = Inr (g', a') \<longrightarrow>
            a' = a @ map (\<lambda>(k, e'). (k, val e', expire e'))
                       (filter (\<lambda>(k, e'). isValid now e') (concat (shards g)))) \<and>
         (\<forall>(f :: string \<Rightarrow> 'v \<Rightarrow> int64 \<Rightarrow> 'b \<Rightarrow> bool \<times> 'b) a.
            \<not> expFuncEnabled g \<longrightarrow> (\<exists>g' a'. Range_g h c now f g a = Inr (g', a'))) \<and>
         (\<forall>(f :: string \<Rightarrow> 'v \<Rightarrow> int64 \<Rightarrow> 'b \<Rightarrow> bool \<times> 'b) a.
            Range_g h True now f g a = Inr (g, a)) \<and>
         (\<exists>g1. SetWithExpire h now g key v NoTTL = Inr g1 \<and>
            (\<forall>t. Get h z t g1 key = Inr ((v, True), g1)))"
proof -
  have a: "entry_of h g key = None \<longrightarrow> get h z now g key = Inr ((z, 0, False), g)"
    using assms by (simp add: get_absent)
  have b: "\<forall>e'. entry_of h g key = Some e' \<and> isValid now e' \<longrightarrow>
            get h z now g key = Inr ((val e', expire e', True), g)"
    using assms by (simp add: get_valid)
  have c: "\<forall>e'. entry_of h g key = Some e' \<and> \<not> isValid now e' \<longrightarrow>
            get h z now g key = Inl SendBlocked \<or>
            (\<exists>g'. get h z now g key = Inr ((z, expire e', False), g'))"
  proof (intro allI impI)
    fix e' assume "entry_of h g key = Some e' \<and> \<not> isValid now e'"
    then have eq: "get h z now g key =
         (case expiration h g key of Inl f \<Rightarrow> Inl f | Inr g' \<Rightarrow> Inr ((z, expire e', False), g'))"
      using assms by (simp add: get_expired)
    show "get h z now g key = Inl SendBlocked \<or>
            (\<exists>g'. get h z now g key = Inr ((z, expire e', False), g'))"
    proof (cases "hook_room g")
      case True
      with expiration_room [OF assms, of h key] eq show ?thesis by auto
    next
      case False
      with expiration_blocked [OF assms, of h key] eq show ?thesis by simp
    qed
  qed
  have d: "\<forall>(f :: string \<Rightarrow> 'v \<Rightarrow> int64 \<Rightarrow> 'b \<Rightarrow> bool \<times> 'b) a g' a' Q.
            Range_g h c now f g a = Inr (g', a') \<and> Q a \<and>
            (\<forall>k e' b. isValid now e' \<and> Q b \<longrightarrow> Q (snd (f k (val e') (expire e') b)))
            \<longrightarrow> Q a'"
    by (intro allI impI, elim conjE, erule Range_g_inv, assumption, blast)
  have f: "\<forall>(f :: string \<Rightarrow> 'v \<Rightarrow> int64 \<Rightarrow> 'b \<Rightarrow> bool \<times> 'b) a g' a'.
            routed h g \<and> (\<forall>k v ex b. fst (f k v ex b)) \<and>
            Range_g h False now f g a = Inr (g', a') \<longrightarrow>
            a' = fold (\<lambda>(k, e') b. snd (f k (val e') (expire e') b))
                   (filter (\<lambda>(k, e'). isValid now e') (concat (shards g))) a"
  proof (intro allI impI, elim conjE)
    fix f :: "string \<Rightarrow> 'v \<Rightarrow> int64 \<Rightarrow> 'b \<Rightarrow> bool \<times> 'b" and a g' a'
    assume r: "routed h g" and ff: "\<forall>k v ex b. fst (f k v ex b)"
      and rg: "Range_g h False now f g a = Inr (g', a')"
    have "\<And>k v ex b. fst (f k v ex b)" using ff by simp
    from Range_g_exact [OF this assms r rg]
    show "a' = fold (\<lambda>(k, e') b. snd (f k (val e') (expire e') b))
                   (filter (\<lambda>(k, e'). isValid now e') (concat (shards g))) a" .
  qed
  have r: "\<forall>a g' a'. routed h g \<and> Range_g h False now record_call g a = Inr (g', a') \<longrightarrow>
            a' = a @ map (\<lambda>(k, e'). (k, val e', expire e'))
                       (filter (\<lambda>(k, e'). isValid now e') (concat (shards g)))"
    using Range_g_record [OF assms] by blast
  have t: "\<forall>(f :: string \<Rightarrow> 'v \<Rightarrow> int64 \<Rightarrow> 'b \<Rightarrow> bool \<times> 'b) a.
            \<not> expFuncEnabled g \<longrightarrow> (\<exists>g' a'. Range_g h c now f g a = Inr (g', a'))"
    by (intro allI impI, rule Range_g_returns [OF assms])
  have u: "\<forall>(f :: string \<Rightarrow> 'v \<Rightarrow> int64 \<Rightarrow> 'b \<Rightarrow> bool \<times> 'b) a.
            Range_g h True now f g a = Inr (g, a)"
    by (simp add: Range_g_def range_shards_cancelled)
  show ?thesis
    by (intro conjI isValid_sint a b c d f r t u Get_never [OF assms])
qed

lemma sample_two_routed: "routed hash_len sample_two"
proof -
  have "distinct (map fst (shards sample_two ! i)) \<and>
        (\<forall>(k, e) \<in> set (shards sample_two ! i). shard_idx hash_len k = i)"
    if "i < length (shards sample_two)" for i
  proof (cases "i = 1")
    case True
    then show ?thesis
      using sample_two_fields by (simp add: sample_idx sample_idx_b)
  next
    case False
    then have "shards sample_two ! i = []"
      using that by (simp add: sample_two_def newMap_def)
    then show ?thesis by simp
  qed
  then show ?thesis
    by (simp add: routed_def)
qed

theorem isValid_decides_reads_witness:
  "array_ok sample_two \<and> routed hash_len sample_two \<and> \<not> expFuncEnabled sample_two \<and>
   entry_of hash_len sample_two ''a'' = Some \<lparr>expire = - 1, val = 7\<rparr> \<and>
   isValid 9 \<lparr>expire = - 1, val = 7 :: nat\<rparr> \<and>
   get hash_len 0 9 sample_two ''a'' = Inr ((7, - 1, True), sample_two) \<and>
   entry_of hash_len sample_two ''b'' = Some \<lparr>expire = 4, val = 8\<rparr> \<and>
   \<not> isValid 9 \<lparr>expire = 4, val = 8 :: nat\<rparr> \<and>
   get hash_len 0 9 sample_two ''b'' =
     Inr ((0, 4, False),
       sample_two\<lparr>l := 1, shards := (shards sample_two)[1 := [(''a'', \<lparr>expire = - 1, val = 7\<rparr>)]]\<rparr>) \<and>
   entry_of hash_len sample_two ''c'' = None \<and>
   get hash_len 0 9 sample_two ''c'' = Inr ((0, 0, False), sample_two) \<and>
   Range_g hash_len False 9 record_call sample_two [] =
     Inr (sample_two\<lparr>l := 1, shards := (shards sample_two)[1 := [(''a'', \<lparr>expire = - 1, val = 7\<rparr>)]]\<rparr>,
          [(''a'', 7, - 1)]) \<and>
   map (\<lambda>(k, e). (k, val e, expire e))
     (filter (\<lambda>(k, e). isValid 9 e) (concat (shards sample_two))) = [(''a'', 7, - 1)] \<and>
   list_all (\<lambda>(k, v, ex). isValid 9 \<lparr>expire = ex, val = v\<rparr>) [(''a'', 7 :: nat, - 1)]"
proof -
  have ok: "array_ok sample_two"
    using sample_two_fields by simp
  have nh: "\<not> expFuncEnabled sample_two"
    using sample_two_fields by simp
  note th = isValid_decides_reads [OF ok, where h = hash_len and now = 9 and z = 0 and c = False
      and v = 0 and e = "\<lparr>expire = 0, val = 0\<rparr>"]
  have a: "get hash_len 0 9 sample_two ''a'' = Inr ((7, - 1, True), sample_two)"
  proof -
    have "\<forall>e'. entry_of hash_len sample_two ''a'' = Some e' \<and> isValid 9 e' \<longrightarrow>
            get hash_len 0 9 sample_two ''a'' = Inr ((val e', expire e', True), sample_two)"
      by (rule th [where key = "''a''", THEN conjunct2, THEN conjunct2, THEN conjunct1])
    then show ?thesis
      using sample_two_entries sample_validity by simp
  qed
  have c: "get hash_len 0 9 sample_two ''c'' = Inr ((0, 0, False), sample_two)"
  proof -
    have "entry_of hash_len sample_two ''c'' = None \<longrightarrow>
            get hash_len 0 9 sample_two ''c'' = Inr ((0, 0, False), sample_two)"
      by (rule th [where key = "''c''", THEN conjunct2, THEN conjunct1])
    then show ?thesis
      using sample_two_entries by simp
  qed
  have b: "get hash_len 0 9 sample_two ''b'' =
     Inr ((0, 4, False),
       sample_two\<lparr>l := 1, shards := (shards sample_two)[1 := [(''a'', \<lparr>expire = - 1, val = 7\<rparr>)]]\<rparr>)"
    using sample_two_entries sample_validity
    by (simp add: get_expired [OF ok] sample_two_expiration)
  have r: "list_all (\<lambda>(k, v, ex). isValid 9 \<lparr>expire = ex, val = v\<rparr>) [(''a'', 7 :: nat, - 1)]"
  proof -
    let ?Q = "list_all (\<lambda>(k, v :: nat, ex). isValid 9 \<lparr>expire = ex, val = v\<rparr>)"
    have "\<forall>(f :: string \<Rightarrow> nat \<Rightarrow> int64 \<Rightarrow> (string \<times> nat \<times> int64) list
              \<Rightarrow> bool \<times> (string \<times> nat \<times> int64) list) a g' a' Q.
            Range_g hash_len False 9 f sample_two a = Inr (g', a') \<and> Q a \<and>
            (\<forall>k e' b. isValid 9 e' \<and> Q b \<longrightarrow> Q (snd (f k (val e') (expire e') b)))
            \<longrightarrow> Q a'"
      by (rule th [where key = "''a''", THEN conjunct2, THEN conjunct2, THEN conjunct2,
            THEN conjunct2, THEN conjunct1])
    note E = this [rule_format, where f = record_call and a = "[]" and Q = "?Q"]
    show ?thesis
      by (rule E) (simp add: sample_two_Range record_call_def isValid_sint)
  qed
  have x: "map (\<lambda>(k, e). (k, val e, expire e))
     (filter (\<lambda>(k, e). isValid 9 e) (concat (shards sample_two))) = [(''a'', 7, - 1)]"
  proof -
    have "\<forall>a g' a'. routed hash_len sample_two \<and>
            Range_g hash_len False 9 record_call sample_two a = Inr (g', a') \<longrightarrow>
            a' = a @ map (\<lambda>(k, e'). (k, val e', expire e'))
                       (filter (\<lambda>(k, e'). isValid 9 e') (concat (shards sample_two)))"
      by (rule th [where key = "''a''", THEN conjunct2, THEN conjunct2, THEN conjunct2,
            THEN conjunct2, THEN conjunct2, THEN conjunct2, THEN conjunct1])
    note E = this [rule_format, where a = "[]", OF conjI [OF sample_two_routed sample_two_Range]]
    then show ?thesis by simp
  qed
  show ?thesis
    by (intro conjI ok sample_two_routed nh a b c r x sample_two_Range
        sample_two_entries [THEN conjunct1] sample_two_entries [THEN conjunct2, THEN conjunct1]
        sample_two_entries [THEN conjunct2, THEN conjunct2]
        sample_validity [THEN conjunct1] sample_validity [THEN conjunct2])
qed

section \<open>A key that expires\<close>

lemma expiration_shards:
  assumes "array_ok g" "expiration h g k = Inr g'"
  shows "shards g' = (shards g)[shard_idx h k := AList.delete k (shards g ! shard_idx h k)]"
  using assms
  by (auto simp add: expiration_ok Let_def split: if_splits option.splits)

lemma set_expire_fresh:
  assumes "array_ok g" "entry_of h g k = None"
    and "SetWithExpire h t0 g k v ttl = Inr g1" "expiration h g1 k = Inr g2"
  shows "shards g2 = shards g"
proof -
  let ?i = "shard_idx h k"
  let ?e = "\<lparr>expire = (if 0 <s ttl then t0 + ttl else ttl), val = v\<rparr>"
  have i: "?i < length (shards g)"
    using assms(1) by (rule shard_idx_in)
  have s1: "shards g1 = (shards g)[?i := AList.update k ?e (shards g ! ?i)]"
    using assms(1,3) by (auto simp add: SetWithExpire_def set_g_ok)
  have ok1: "array_ok g1"
    using assms(1) s1 by (simp add: array_ok_def)
  have "shards g2 = (shards g1)[?i := AList.delete k (shards g1 ! ?i)]"
    using ok1 assms(4) by (rule expiration_shards)
  also have "\<dots> = (shards g)[?i := AList.delete k (shards g ! ?i)]"
    using i by (simp add: s1 delete_update_same)
  also have "AList.delete k (shards g ! ?i) = shards g ! ?i"
    using assms(2) by (simp add: entry_of_def delete_absent)
  finally show ?thesis by simp
qed

text \<open>
  C1 (as amended). Let a key be set with a positive \<open>ttl\<close> at clock reading \<open>t0\<close>. A
  \<open>Get\<close> at \<open>t0\<close>, or at any reading up to \<open>t0 + ttl\<close>, returns the value and "found"
  and leaves the cache as it is. Let \<open>t0\<close> be non-negative (the clock counts from
  1970) and let a \<open>Get\<close> follow at a reading later than \<open>t0 + ttl\<close>. If the expiration
  hook is disabled or the hook channel has room, this \<open>Get\<close> returns the zero value and
  "not found", the key is gone from its shard, every later \<open>Get\<close> returns "not found"
  as well, and the size counter is one less than after the \<open>Set\<close>, so that \<open>Len\<close> is
  what it was before the \<open>Set\<close>. When the key was not stored before the \<open>Set\<close>, the
  shards are then exactly the shards before the \<open>Set\<close>, and \<open>Len\<close> is the number of
  stored entries if it was before the \<open>Set\<close>; nothing is said of \<open>Len\<close> after a \<open>Set\<close>
  that overwrites an entry. In a run where nothing receives from the hook channel, if
  the hook is enabled and the channel is full, that \<open>Get\<close> blocks on the channel.
\<close>

theorem expiration_monotonicity:
  assumes "array_ok g" "0 <s ttl"
  shows "\<exists>g1. SetWithExpire h t0 g k v ttl = Inr g1 \<and>
           Get h z t0 g1 k = Inr ((v, True), g1) \<and>
           (\<forall>t1. sint t1 \<le> sint t0 + sint ttl \<longrightarrow> Get h z t1 g1 k = Inr ((v, True), g1)) \<and>
           (\<forall>t2. 0 \<le>s t0 \<and> sint t0 + sint ttl < sint t2 \<and> hook_room g \<longrightarrow>
              (\<exists>g2. Get h z t2 g1 k = Inr ((z, False), g2) \<and> entry_of h g2 k = None \<and>
                 l g2 = l g1 - 1 \<and> Len g2 = Len g \<and>
                 (entry_of h g k = None \<longrightarrow>
                    shards g2 = shards g \<and> stored_count g2 = stored_count g \<and>
                    (Len g = int (stored_count g) \<longrightarrow> Len g2 = int (stored_count g2))) \<and>
                 (\<forall>t3. Get h z t3 g2 k = Inr ((z, False), g2)))) \<and>
           (\<forall>t2. 0 \<le>s t0 \<and> sint t0 + sint ttl < sint t2 \<and> \<not> hook_room g \<longrightarrow>
              Get h z t2 g1 k = Inl SendBlocked)"
proof -
  from SetWithExpire_ok [OF assms(1), of h t0 k v ttl] assms(2) obtain g1 where
    s: "SetWithExpire h t0 g k v ttl = Inr g1" and ok: "array_ok g1"
    and e: "entry_of h g1 k = Some \<lparr>expire = t0 + ttl, val = v\<rparr>"
    and l1: "l g1 = l g + 1"
    and cfg: "expFuncEnabled g1 = expFuncEnabled g" "expChan g1 = expChan g"
    by auto
  have room: "hook_room g1 = hook_room g"
    by (simp add: hook_room_def cfg)
  have within: "Get h z t1 g1 k = Inr ((v, True), g1)" if "sint t1 \<le> sint t0 + sint ttl" for t1
    using get_valid [OF ok e valid_within_ttl [OF assms(2) that], of z]
    by (simp add: Get_unfold)
  have "0 < sint ttl"
    using assms(2) by (simp add: word_sless_alt)
  then have now: "Get h z t0 g1 k = Inr ((v, True), g1)"
    by (intro within) simp
  have after: "\<exists>g2. Get h z t2 g1 k = Inr ((z, False), g2) \<and> entry_of h g2 k = None \<and>
                 l g2 = l g1 - 1 \<and> Len g2 = Len g \<and>
                 (entry_of h g k = None \<longrightarrow>
                    shards g2 = shards g \<and> stored_count g2 = stored_count g \<and>
                    (Len g = int (stored_count g) \<longrightarrow> Len g2 = int (stored_count g2))) \<and>
                 (\<forall>t3. Get h z t3 g2 k = Inr ((z, False), g2))"
    if "0 \<le>s t0 \<and> sint t0 + sint ttl < sint t2 \<and> hook_room g" for t2
  proof -
    have inv: "\<not> isValid t2 \<lparr>expire = t0 + ttl, val = v\<rparr>"
      using that assms(2) by (intro expired_after_ttl) simp_all
    have r1: "hook_room g1"
      using that room by simp
    from expiration_room [OF ok r1, of h k] obtain g2 where
      x: "expiration h g1 k = Inr g2" and ok2: "array_ok g2" and e2: "entry_of h g2 k = None"
      and l2: "l g2 = l g1 - 1"
      by blast
    have gt: "Get h z t2 g1 k = Inr ((z, False), g2)"
      using get_expired [OF ok e inv, of z] x by (simp add: Get_unfold)
    have later: "\<forall>t3. Get h z t3 g2 k = Inr ((z, False), g2)"
      using get_absent [OF ok2 e2, of z] by (simp add: Get_unfold)
    have len: "Len g2 = Len g"
      using l1 l2 by (simp add: Len_def)
    have fresh: "entry_of h g k = None \<longrightarrow>
                    shards g2 = shards g \<and> stored_count g2 = stored_count g \<and>
                    (Len g = int (stored_count g) \<longrightarrow> Len g2 = int (stored_count g2))"
    proof
      assume "entry_of h g k = None"
      with assms(1) have "shards g2 = shards g"
        using s x by (rule set_expire_fresh)
      then show "shards g2 = shards g \<and> stored_count g2 = stored_count g \<and>
                    (Len g = int (stored_count g) \<longrightarrow> Len g2 = int (stored_count g2))"
        using len by (simp add: stored_count_def)
    qed
    show ?thesis
      by (intro exI [of _ g2] conjI gt e2 l2 len fresh later)
  qed
  have blocked: "Get h z t2 g1 k = Inl SendBlocked"
    if "0 \<le>s t0 \<and> sint t0 + sint ttl < sint t2 \<and> \<not> hook_room g" for t2
  proof -
    have inv: "\<not> isValid t2 \<lparr>expire = t0 + ttl, val = v\<rparr>"
      using that assms(2) by (intro expired_after_ttl) simp_all
    show ?thesis
      using Get_expired_blocked [OF ok e inv, of z] that room by simp
  qed
  show ?thesis
    using s now within after blocked by blast
qed

lemma New_nil_empty:
  "entry_of hash_len (New [] :: nat gache) ''a'' = None \<and> stored_count (New [] :: nat gache) = 0 \<and>
   Len (New [] :: nat gache) = 0 \<and> hook_room (New [] :: nat gache)"
  by (simp add: entry_of_def New_nil_fields sample_idx slen_def newMap_def stored_count_def
      Len_def hook_room_def)

theorem expiration_monotonicity_witness:
  "array_ok (New [] :: nat gache) \<and> 0 <s (3 :: int64) \<and> 0 \<le>s (5 :: int64) \<and>
   sint (8 :: int64) \<le> sint (5 :: int64) + sint (3 :: int64) \<and>
   sint (5 :: int64) + sint (3 :: int64) < sint (9 :: int64) \<and>
   hook_room (New [] :: nat gache) \<and>
   entry_of hash_len (New [] :: nat gache) ''a'' = None \<and>
   Len (New [] :: nat gache) = int (stored_count (New [] :: nat gache)) \<and>
   map_sum id (\<lambda>g1. (Get hash_len 0 8 g1 ''a'' = Inr ((7, True), g1),
       map_sum id (\<lambda>(r, g2). (r, Len g2, stored_count g2, entry_of hash_len g2 ''a''))
         (Get hash_len 0 9 g1 ''a'')))
     (SetWithExpire hash_len 5 (New [] :: nat gache) ''a'' 7 3)
   = Inr (True, Inr ((0, False), 0, 0, None))"
proof -
  have p: "0 <s (3 :: int64)" "0 \<le>s (5 :: int64)"
    "sint (8 :: int64) \<le> sint (5 :: int64) + sint (3 :: int64)"
    "sint (5 :: int64) + sint (3 :: int64) < sint (9 :: int64)"
    by (simp_all add: word_sless_alt word_sle_eq)
  note n = New_nil_empty
  from expiration_monotonicity [OF array_ok_New [of "[] :: (nat gache \<Rightarrow> nat gache) list"] p(1),
      of hash_len 5 "''a''" 7 0]
  obtain g1 where s: "SetWithExpire hash_len 5 (New [] :: nat gache) ''a'' 7 3 = Inr g1"
    and w: "\<forall>t1. sint t1 \<le> sint (5 :: int64) + sint (3 :: int64)
          \<longrightarrow> Get hash_len 0 t1 g1 ''a'' = Inr ((7, True), g1)"
    and a: "\<forall>t2. 0 \<le>s (5 :: int64) \<and> sint (5 :: int64) + sint (3 :: int64) < sint t2 \<and>
            hook_room (New [] :: nat gache) \<longrightarrow>
              (\<exists>g2. Get hash_len 0 t2 g1 ''a'' = Inr ((0, False), g2) \<and>
                 entry_of hash_len g2 ''a'' = None \<and>
                 l g2 = l g1 - 1 \<and> Len g2 = Len (New [] :: nat gache) \<and>
                 (entry_of hash_len (New [] :: nat gache) ''a'' = None \<longrightarrow>
                    shards g2 = shards (New [] :: nat gache) \<and>
                    stored_count g2 = stored_count (New [] :: nat gache) \<and>
                    (Len (New [] :: nat gache) = int (stored_count (New [] :: nat gache)) \<longrightarrow>
                       Len g2 = int (stored_count g2))) \<and>
                 (\<forall>t3. Get hash_len 0 t3 g2 ''a'' = Inr ((0, False), g2)))"
    by blast
  have w8: "Get hash_len 0 8 g1 ''a'' = Inr ((7, True), g1)"
    using w p(3) by blast
  have "\<exists>g2. Get hash_len 0 9 g1 ''a'' = Inr ((0, False), g2) \<and>
      entry_of hash_len g2 ''a'' = None \<and> Len g2 = Len (New [] :: nat gache) \<and>
      stored_count g2 = stored_count (New [] :: nat gache)"
    using a [rule_format, of 9] p(2,4) n by auto
  then obtain g2 where
    "Get hash_len 0 9 g1 ''a'' = Inr ((0, False), g2)" "entry_of hash_len g2 ''a'' = None"
    "Len g2 = Len (New [] :: nat gache)" "stored_count g2 = stored_count (New [] :: nat gache)"
    by blast
  with s w8 p n array_ok_New [of "[] :: (nat gache \<Rightarrow> nat gache) list"]
  show ?thesis by simp
qed

text \<open>
  Two runs against the claim as it is written. In the first the key \<open>''a''\<close> is set
  twice with a TTL of 3 at clock reading 5; the \<open>Get\<close> at reading 9 returns "not found"
  and leaves every shard empty, yet \<open>Len\<close> is 1. In the second the hook is enabled and
  the hook channel is full, with nothing receiving from it; the \<open>Get\<close> of the expired
  key blocks.
\<close>

theorem expired_Get_counterexample:
  "SetWithExpire hash_len 5 (New [] :: nat gache) ''a'' 7 3 =
     Inr ((New [])\<lparr>l := 1, shards := (replicate slen newMap)
        [1 := [(''a'', \<lparr>expire = 8, val = 7\<rparr>)]]\<rparr>) \<and>
   SetWithExpire hash_len 5 ((New [] :: nat gache)\<lparr>l := 1, shards := (replicate slen newMap)
        [1 := [(''a'', \<lparr>expire = 8, val = 7\<rparr>)]]\<rparr>) ''a'' 9 3 =
     Inr ((New [])\<lparr>l := 2, shards := (replicate slen newMap)
        [1 := [(''a'', \<lparr>expire = 8, val = 9\<rparr>)]]\<rparr>) \<and>
   Get hash_len 0 9 ((New [] :: nat gache)\<lparr>l := 2, shards := (replicate slen newMap)
        [1 := [(''a'', \<lparr>expire = 8, val = 9\<rparr>)]]\<rparr>) ''a'' =
     Inr ((0, False), (New [])\<lparr>l := 1\<rparr>) \<and>
   shards ((New [] :: nat gache)\<lparr>l := 1\<rparr>) = replicate slen [] \<and>
   stored_count ((New [] :: nat gache)\<lparr>l := 1\<rparr>) = 0 \<and>
   Len ((New [] :: nat gache)\<lparr>l := 1\<rparr>) = 1 \<and>
   0 <s (1 :: int64) \<and> sint (1 :: int64) + sint (1 :: int64) < sint (4 :: int64) \<and>
   SetWithExpire hash_len 1 sample_full ''a'' 7 1 =
     Inr (sample_full\<lparr>l := 1, shards := (replicate slen newMap)
        [1 := [(''a'', \<lparr>expire = 2, val = 7\<rparr>)]]\<rparr>) \<and>
   Get hash_len 0 4 (sample_full\<lparr>l := 1, shards := (replicate slen newMap)
        [1 := [(''a'', \<lparr>expire = 2, val = 7\<rparr>)]]\<rparr>) ''a'' = Inl SendBlocked"
proof -
  let ?a1 = "(New [] :: nat gache)\<lparr>l := 1, shards := (replicate slen newMap)
        [1 := [(''a'', \<lparr>expire = 8, val = 7\<rparr>)]]\<rparr>"
  let ?a2 = "(New [] :: nat gache)\<lparr>l := 2, shards := (replicate slen newMap)
        [1 := [(''a'', \<lparr>expire = 8, val = 9\<rparr>)]]\<rparr>"
  have pos: "0 <s (3 :: int64)" "0 <s (1 :: int64)"
    by (simp_all add: word_sless_alt)
  have a1: "SetWithExpire hash_len 5 (New [] :: nat gache) ''a'' 7 3 = Inr ?a1"
    using pos by (simp add: SetWithExpire_def set_sample)
  have ok1: "array_ok ?a1"
    by (simp add: array_ok_def New_nil_fields)
  have a2: "SetWithExpire hash_len 5 ?a1 ''a'' 9 3 = Inr ?a2"
    unfolding SetWithExpire_def set_g_ok [OF ok1] sample_idx
    using pos by (simp add: slen_def)
  have ok2: "array_ok ?a2"
    by (simp add: array_ok_def New_nil_fields)
  have e2: "entry_of hash_len ?a2 ''a'' = Some \<lparr>expire = 8, val = 9\<rparr>"
    by (simp add: entry_of_def sample_idx slen_def)
  have inv2: "\<not> isValid 9 \<lparr>expire = 8, val = 9 :: nat\<rparr>"
    by (simp add: isValid_sint)
  have x2: "expiration hash_len ?a2 ''a'' = Inr ((New [])\<lparr>l := 1\<rparr>)"
    unfolding expiration_ok [OF ok2] Let_def sample_idx
    by (simp add: New_nil_fields slen_def newMap_def list_update_same_conv)
  have a3: "Get hash_len 0 9 ?a2 ''a'' = Inr ((0, False), (New [])\<lparr>l := 1\<rparr>)"
    using get_expired [OF ok2 e2 inv2, of 0] x2 by (simp add: Get_unfold)
  have a4: "shards ((New [] :: nat gache)\<lparr>l := 1\<rparr>) = replicate slen [] \<and>
     stored_count ((New [] :: nat gache)\<lparr>l := 1\<rparr>) = 0 \<and> Len ((New [] :: nat gache)\<lparr>l := 1\<rparr>) = 1"
    by (simp add: New_nil_fields newMap_def stored_count_def Len_def)
  let ?g1 = "sample_full\<lparr>l := 1, shards := (replicate slen newMap)
        [1 := [(''a'', \<lparr>expire = 2, val = 7\<rparr>)]]\<rparr>"
  have ok0: "array_ok sample_full"
    by (simp add: sample_full_def array_ok_def New_hook_fields)
  have s: "SetWithExpire hash_len 1 sample_full ''a'' 7 1 = Inr ?g1"
    by (simp add: SetWithExpire_def set_g_ok [OF ok0] sample_idx word_sless_alt)
      (simp add: sample_full_def New_hook_fields newMap_def slen_def)
  have ok: "array_ok ?g1"
    by (simp add: array_ok_def)
  have e: "entry_of hash_len ?g1 ''a'' = Some \<lparr>expire = 2, val = 7\<rparr>"
    by (simp add: entry_of_def sample_idx slen_def)
  have inv: "\<not> isValid 4 \<lparr>expire = 2, val = 7 :: nat\<rparr>"
    by (simp add: isValid_sint)
  have full: "\<not> hook_room ?g1"
    by (simp add: hook_room_def sample_full_def New_hook_fields)
  have b: "Get hash_len 0 4 ?g1 ''a'' = Inl SendBlocked"
    by (rule Get_expired_blocked [OF ok e inv full])
  have n: "sint (1 :: int64) + sint (1 :: int64) < sint (4 :: int64)"
    by simp
  show ?thesis
    by (intro conjI a1 a2 a3 a4 [THEN conjunct1] a4 [THEN conjunct2, THEN conjunct1]
        a4 [THEN conjunct2, THEN conjunct2] pos(2) n s b)
qed

section \<open>Invariants of the shards\<close>

lemma set_update_cases:
  "(k', e') \<in> set (AList.update k v al) \<Longrightarrow> (k', e') = (k, v) \<or> (k', e') \<in> set al"
  by (induction al) (auto split: if_splits)

lemma routed_New: "routed h (New opts)"
  by (simp add: routed_def New_def Let_def newMap_def)

lemma all_valid_New: "all_valid now (New opts)"
  by (simp add: all_valid_def New_def Let_def newMap_def)

lemma set_g_routed:
  assumes "array_ok g" "routed h g" "set_g h now g k v ex = Inr g'"
  shows "routed h g'"
proof -
  let ?i = "shard_idx h k"
  let ?s = "AList.update k \<lparr>expire = (if 0 <s ex then now + ex else ex), val = v\<rparr> (shards g ! ?i)"
  have g': "shards g' = (shards g)[?i := ?s]"
    using assms(1,3) by (auto simp add: set_g_ok)
  have i: "?i < length (shards g)"
    using assms(1) by (rule shard_idx_in)
  have "distinct (map fst (shards g' ! j)) \<and> (\<forall>(k', e) \<in> set (shards g' ! j). shard_idx h k' = j)"
    if "j < length (shards g')" for j
  proof (cases "j = ?i")
    case True
    have d: "distinct (map fst (shards g ! ?i))"
      and r: "\<forall>(k', e) \<in> set (shards g ! ?i). shard_idx h k' = ?i"
      using assms(2) i by (auto simp add: routed_def)
    have "distinct (map fst ?s)"
      using d by (rule distinct_update)
    moreover have "\<forall>(k', e) \<in> set ?s. shard_idx h k' = ?i"
      using r by (auto dest!: set_update_cases)
    ultimately show ?thesis
      using True i by (simp add: g')
  next
    case False
    then show ?thesis
      using assms(2) that by (auto simp add: routed_def g')
  qed
  then show ?thesis
    by (simp add: routed_def)
qed

lemma set_g_all_valid:
  assumes "array_ok g" "all_valid t g" "set_g h now g k v ex = Inr g'"
    "isValid t \<lparr>expire = (if 0 <s ex then now + ex else ex), val = v\<rparr>"
  shows "all_valid t g'"
proof -
  let ?i = "shard_idx h k"
  let ?s = "AList.update k \<lparr>expire = (if 0 <s ex then now + ex else ex), val = v\<rparr> (shards g ! ?i)"
  have g': "shards g' = (shards g)[?i := ?s]"
    using assms(1,3) by (auto simp add: set_g_ok)
  have i: "?i < length (shards g)"
    using assms(1) by (rule shard_idx_in)
  have old: "\<forall>(k', e) \<in> set (shards g ! ?i). isValid t e"
    using assms(2) i by (auto simp add: all_valid_def)
  have new: "\<forall>(k', e) \<in> set ?s. isValid t e"
    using old assms(4) by (auto dest!: set_update_cases)
  show ?thesis
    unfolding all_valid_def g'
  proof
    fix s assume "s \<in> set ((shards g)[?i := ?s])"
    then have "s = ?s \<or> s \<in> set (shards g)"
      using set_update_subset_insert [of "shards g" ?i ?s] by auto
    then show "\<forall>(k', e) \<in> set s. isValid t e"
      using new assms(2) by (auto simp add: all_valid_def)
  qed
qed

lemma set_g_entry_other:
  assumes "array_ok g" "set_g h now g k' v ex = Inr g'" "k \<noteq> k'"
  shows "entry_of h g' k = entry_of h g k"
proof -
  have i: "shard_idx h k < length (shards g)" "shard_idx h k' < length (shards g)"
    using assms(1) by (simp_all add: shard_idx_in)
  show ?thesis
  proof (cases "shard_idx h k = shard_idx h k'")
    case True
    then show ?thesis
      using assms i by (auto simp add: set_g_ok entry_of_def update_conv')
  next
    case False
    then show ?thesis
      using assms i by (auto simp add: set_g_ok entry_of_def)
  qed
qed

lemma set_g_array_ok:
  "array_ok g \<Longrightarrow> set_g h now g k v ex = Inr g' \<Longrightarrow> array_ok g' \<and> expire_g g' = expire_g g"
  by (auto simp add: set_g_ok array_ok_def)

section \<open>Storing a list of pairs\<close>

lemma set_all_stores:
  assumes "array_ok g" "routed h g" "all_valid t g" "distinct (map fst kvs)" "\<not> 0 <s ttl"
  shows "\<exists>g'. set_all h now g kvs ttl = Inr g' \<and> array_ok g' \<and> routed h g' \<and> all_valid t g' \<and>
           (\<forall>(k, v) \<in> set kvs. entry_of h g' k = Some \<lparr>expire = ttl, val = v\<rparr>) \<and>
           (\<forall>k. k \<notin> fst ` set kvs \<longrightarrow> entry_of h g' k = entry_of h g k)"
  using assms(1-4)
proof (induction kvs arbitrary: g)
  case Nil
  then show ?case by simp
next
  case (Cons x kvs)
  obtain k v where x: "x = (k, v)" by (cases x)
  from SetWithExpire_ok [OF Cons.prems(1), of h now k v ttl] assms(5) obtain g1 where
    s: "SetWithExpire h now g k v ttl = Inr g1" and ok1: "array_ok g1"
    and e1: "entry_of h g1 k = Some \<lparr>expire = ttl, val = v\<rparr>"
    by auto
  have s': "set_g h now g k v ttl = Inr g1"
    using s by (simp add: SetWithExpire_def)
  have r1: "routed h g1"
    using Cons.prems(1,2) s' by (rule set_g_routed)
  have v1: "all_valid t g1"
    by (rule set_g_all_valid [OF Cons.prems(1,3) s']) (simp add: never_expires assms(5))
  have d: "distinct (map fst kvs)" and nk: "k \<notin> fst ` set kvs"
    using Cons.prems(4) x by simp_all
  from Cons.IH [OF ok1 r1 v1 d] obtain g' where
    a: "set_all h now g1 kvs ttl = Inr g'" and ok': "array_ok g'" and r': "routed h g'"
    and v': "all_valid t g'"
    and st: "\<forall>(k, v) \<in> set kvs. entry_of h g' k = Some \<lparr>expire = ttl, val = v\<rparr>"
    and ot: "\<forall>k. k \<notin> fst ` set kvs \<longrightarrow> entry_of h g' k = entry_of h g1 k"
    by blast
  have "set_all h now g (x # kvs) ttl = Inr g'"
    using s a x by simp
  moreover have "\<forall>(k', v') \<in> set (x # kvs). entry_of h g' k' = Some \<lparr>expire = ttl, val = v'\<rparr>"
    using st ot nk e1 x by auto
  moreover have "\<forall>k'. k' \<notin> fst ` set (x # kvs) \<longrightarrow> entry_of h g' k' = entry_of h g k'"
    using ot x set_g_entry_other [OF Cons.prems(1) s'] by auto
  ultimately show ?case
    using ok' r' v' by blast
qed

section \<open>Range and Write over a cache with no expired entry\<close>

lemma range_shard_all_valid:
  assumes "\<forall>(k, e) \<in> set es. isValid now e" "\<And>k v ex a. fst (f k v ex a)"
  shows "range_shard h False now f (g, a) es =
           Inr (g, fold (\<lambda>(k, e) a. snd (f k (val e) (expire e) a)) es a)"
  using assms(1)
proof (induction es arbitrary: a)
  case Nil
  then show ?case by simp
next
  case (Cons x es)
  obtain k e where x: "x = (k, e)" by (cases x)
  obtain b a1 where fa: "f k (val e) (expire e) a = (b, a1)"
    by (cases "f k (val e) (expire e) a")
  have b: "b"
    using assms(2) [of k "val e" "expire e" a] fa by simp
  have "range_shard h False now f (g, a1) es =
           Inr (g, fold (\<lambda>(k, e) a. snd (f k (val e) (expire e) a)) es a1)"
    using Cons.prems by (intro Cons.IH) simp
  then show ?case
    using Cons.prems x fa b by simp
qed

lemma range_shards_all_valid:
  assumes "all_valid now g" "\<And>k v ex a. fst (f k v ex a)" "\<forall>i \<in> set idxs. i < length (shards g)"
  shows "range_shards h False now f (g, a) idxs =
           Inr (g, fold (\<lambda>(k, e) a. snd (f k (val e) (expire e) a))
                     (concat (map (\<lambda>i. shards g ! i) idxs)) a)"
  using assms(3)
proof (induction idxs arbitrary: a)
  case Nil
  then show ?case by simp
next
  case (Cons i idxs)
  have "\<forall>(k, e) \<in> set (shards g ! i). isValid now e"
    using assms(1) Cons.prems nth_mem [of i "shards g"] unfolding all_valid_def by auto
  then have "range_shard h False now f (g, a) (shards g ! i) =
           Inr (g, fold (\<lambda>(k, e) a. snd (f k (val e) (expire e) a)) (shards g ! i) a)"
    using assms(2) by (rule range_shard_all_valid)
  then show ?case
    using Cons by simp
qed

lemma Range_g_all_valid:
  assumes "all_valid now g" "\<And>k v ex a. fst (f k v ex a)"
  shows "Range_g h False now f g a =
           Inr (g, fold (\<lambda>(k, e) a. snd (f k (val e) (expire e) a)) (concat (shards g)) a)"
proof -
  have "range_shards h False now f (g, a) [0..<length (shards g)] =
           Inr (g, fold (\<lambda>(k, e) a. snd (f k (val e) (expire e) a))
                     (concat (map (\<lambda>i. shards g ! i) [0..<length (shards g)])) a)"
    using assms by (rule range_shards_all_valid) simp
  then show ?thesis
    by (simp add: Range_g_def map_nth)
qed

text \<open>The Go map that \<open>Write\<close> encodes when no entry is expired.\<close>

lemma Write_all_valid:
  assumes "all_valid now g"
  shows "Write h enc False now g =
           Inr (enc (fold (\<lambda>(k, e) m. AList.update k (val e) m) (concat (shards g)) []), g)"
  using Range_g_all_valid [OF assms, of "\<lambda>key v ex m. (True, AList.update key v m)" h "[]"]
  by (simp add: Write_def)

lemma collect_untouched:
  "k \<notin> fst ` set es \<Longrightarrow>
     map_of (fold (\<lambda>(k, e) m. AList.update k (val e) m) es m0) k = map_of m0 k"
  by (induction es arbitrary: m0) (auto simp add: update_conv')

lemma collect_holds:
  assumes "(k, e) \<in> set es" "\<forall>e'. (k, e') \<in> set es \<longrightarrow> e' = e"
  shows "map_of (fold (\<lambda>(k, e) m. AList.update k (val e) m) es m0) k = Some (val e)"
  using assms
proof (induction es arbitrary: m0)
  case Nil
  then show ?case by simp
next
  case (Cons x es)
  obtain k1 e1 where x: "x = (k1, e1)" by (cases x)
  show ?case
  proof (cases "k \<in> fst ` set es")
    case True
    then obtain e' where in_es: "(k, e') \<in> set es" by auto
    have "e' = e"
      using Cons.prems(2) in_es by simp
    then have a: "(k, e) \<in> set es"
      using in_es by simp
    have b: "\<forall>e'. (k, e') \<in> set es \<longrightarrow> e' = e"
      using Cons.prems(2) by simp
    have "map_of (fold (\<lambda>(k, e) m. AList.update k (val e) m) es (AList.update k1 (val e1) m0)) k
        = Some (val e)"
      using a b by (rule Cons.IH)
    then show ?thesis
      by (simp add: x)
  next
    case False
    have "(k, e) \<notin> set es"
    proof
      assume "(k, e) \<in> set es"
      then have "fst (k, e) \<in> fst ` set es" by (rule imageI)
      with False show False by simp
    qed
    with Cons.prems(1) have "x = (k, e)" by simp
    with x have kk: "k1 = k" "e1 = e" by simp_all
    have "map_of (fold (\<lambda>(k, e) m. AList.update k (val e) m) es (AList.update k (val e) m0)) k
        = map_of (AList.update k (val e) m0) k"
      using False by (rule collect_untouched)
    then show ?thesis
      by (simp add: x kk update_conv')
  qed
qed

lemma collect_distinct:
  "distinct (map fst m0) \<Longrightarrow>
     distinct (map fst (fold (\<lambda>(k, e) m. AList.update k (val e) m) es m0))"
  by (induction es arbitrary: m0) (auto simp add: distinct_update)

lemma collect_entry:
  assumes "array_ok g" "routed h g" "entry_of h g k = Some e"
  shows "map_of (fold (\<lambda>(k, e) m. AList.update k (val e) m) (concat (shards g)) []) k = Some (val e)"
proof (rule collect_holds)
  have i: "shard_idx h k < length (shards g)"
    using assms(1) by (rule shard_idx_in)
  have "(k, e) \<in> set (shards g ! shard_idx h k)"
    using assms(3) by (simp add: entry_of_def map_of_SomeD)
  then show "(k, e) \<in> set (concat (shards g))"
    using i by auto
  show "\<forall>e'. (k, e') \<in> set (concat (shards g)) \<longrightarrow> e' = e"
  proof (intro allI impI)
    fix e' assume "(k, e') \<in> set (concat (shards g))"
    then obtain s where "s \<in> set (shards g)" "(k, e') \<in> set s"
      by auto
    then obtain j where j: "j < length (shards g)" "(k, e') \<in> set (shards g ! j)"
      by (auto simp add: in_set_conv_nth)
    then have "shard_idx h k = j" and "distinct (map fst (shards g ! j))"
      using assms(2) by (auto simp add: routed_def)
    then have "map_of (shards g ! shard_idx h k) k = Some e'"
      using j(2) by simp
    then show "e' = e"
      using assms(3) by (simp add: entry_of_def)
  qed
qed

section \<open>Read\<close>

lemma Read_loop_stores:
  assumes "array_ok g" "distinct (map fst m)"
  shows "\<exists>g'. Read_loop h now g m = Inr g' \<and> array_ok g' \<and> expire_g g' = expire_g g \<and>
           (\<forall>(k, v) \<in> set m. entry_of h g' k =
              Some \<lparr>expire = (if 0 <s expire_g g then now + expire_g g else expire_g g), val = v\<rparr>) \<and>
           (\<forall>k. k \<notin> fst ` set m \<longrightarrow> entry_of h g' k = entry_of h g k)"
  using assms
proof (induction m arbitrary: g)
  case Nil
  then show ?case by simp
next
  case (Cons x m)
  obtain k v where x: "x = (k, v)" by (cases x)
  let ?E = "if 0 <s expire_g g then now + expire_g g else expire_g g"
  from SetWithExpire_ok [OF Cons.prems(1), of h now k v "expire_g g"] obtain g1 where
    s: "Set h now g k v = Inr g1" and ok1: "array_ok g1"
    and e1: "entry_of h g1 k = Some \<lparr>expire = ?E, val = v\<rparr>"
    and d1: "expire_g g1 = expire_g g"
    unfolding Set_unfold by blast
  have s': "set_g h now g k v (expire_g g) = Inr g1"
    using s by (simp add: Set_def)
  have d: "distinct (map fst m)" and nk: "k \<notin> fst ` set m"
    using Cons.prems(2) x by simp_all
  from Cons.IH [OF ok1 d, unfolded d1] obtain g' where
    a: "Read_loop h now g1 m = Inr g'" and ok': "array_ok g'" and d': "expire_g g' = expire_g g"
    and st: "\<forall>(k, v) \<in> set m. entry_of h g' k = Some \<lparr>expire = ?E, val = v\<rparr>"
    and ot: "\<forall>k. k \<notin> fst ` set m \<longrightarrow> entry_of h g' k = entry_of h g1 k"
    by blast
  have r: "Read_loop h now g (x # m) = Inr g'"
    using s a x by simp
  have st': "\<forall>(k', v') \<in> set (x # m). entry_of h g' k' = Some \<lparr>expire = ?E, val = v'\<rparr>"
    using st ot nk e1 x by auto
  have ot': "\<forall>k'. k' \<notin> fst ` set (x # m) \<longrightarrow> entry_of h g' k' = entry_of h g k'"
    using ot x set_g_entry_other [OF Cons.prems(1) s'] by auto
  show ?case
    by (intro exI [of _ g'] conjI r ok' d' st' ot')
qed

lemma Read_stores:
  assumes "array_ok g" "dec r = Inr m" "distinct (map fst m)"
  shows "\<exists>g'. Read h dec now g r = Inr (None, g') \<and> array_ok g' \<and>
           (\<forall>(k, v) \<in> set m. entry_of h g' k =
              Some \<lparr>expire = (if 0 <s expire_g g then now + expire_g g else expire_g g), val = v\<rparr>)"
  using Read_loop_stores [OF assms(1,3), of h now] assms(2)
  by (auto simp add: Read_def)

lemma default_ttl_valid:
  "isValid now \<lparr>expire = (if 0 <s d then now + d else d), val = v\<rparr>"
proof (cases "0 <s d")
  case True
  then have "0 < sint d" by (simp add: word_sless_alt)
  then have "sint now \<le> sint now + sint d" by simp
  with True show ?thesis
    using valid_within_ttl [of d now now v] by simp
next
  case False
  then show ?thesis by (simp add: never_expires)
qed

section \<open>Write, then Read\<close>

lemma Write_then_Read:
  assumes "codec_ok enc dec" "array_ok g1" "routed h g1" "all_valid t1 g1" "array_ok g"
  shows "\<exists>s g'. Write h enc False t1 g1 = Inr (Inr s, g1) \<and>
           Read h dec now g s = Inr (None, g') \<and> array_ok g' \<and>
           (\<forall>k e. entry_of h g1 k = Some e \<longrightarrow>
              entry_of h g' k =
                Some \<lparr>expire = (if 0 <s expire_g g then now + expire_g g else expire_g g),
                      val = val e\<rparr>)"
proof -
  let ?m = "fold (\<lambda>(k, e) m. AList.update k (val e) m) (concat (shards g1)) []"
  have w: "Write h enc False t1 g1 = Inr (enc ?m, g1)"
    using assms(4) by (rule Write_all_valid)
  have "distinct (map fst ?m)"
    by (rule collect_distinct) simp
  with assms(1) obtain s m' where c: "enc ?m = Inr s" "dec s = Inr m'"
    "distinct (map fst m')" "map_of m' = map_of ?m"
    unfolding codec_ok_def by blast
  from Read_stores [where dec = dec and r = s and m = m' and g = g and h = h and now = now,
      OF assms(5) c(2,3)] obtain g' where
    r: "Read h dec now g s = Inr (None, g')" and ok': "array_ok g'"
    and st: "\<forall>(k, v) \<in> set m'. entry_of h g' k =
              Some \<lparr>expire = (if 0 <s expire_g g then now + expire_g g else expire_g g), val = v\<rparr>"
    by blast
  have "entry_of h g' k =
          Some \<lparr>expire = (if 0 <s expire_g g then now + expire_g g else expire_g g), val = val e\<rparr>"
    if "entry_of h g1 k = Some e" for k e
  proof -
    have "map_of ?m k = Some (val e)"
      using assms(2,3) that by (rule collect_entry)
    then have "map_of m' k = Some (val e)"
      by (simp add: c(4))
    then have "(k, val e) \<in> set m'"
      by (rule map_of_SomeD)
    with st show ?thesis by auto
  qed
  then show ?thesis
    using w c(1) r ok' by auto
qed

lemma not_pos_NoTTL: "\<not> 0 <s NoTTL"
  by (simp add: NoTTL_def word_sless_alt)

text \<open>
  C5. Let pairs with pairwise different keys be stored, in any order, with the TTL
  \<open>NoTTL\<close> in a fresh cache, let \<open>Write\<close> run with a live context, and let a codec
  that restores every map encode the sink and decode it for \<open>Read\<close> into another fresh
  cache. Then \<open>Write\<close> returns the encoded sink and leaves the cache as it is, \<open>Read\<close>
  returns no error, and \<open>Get\<close> of every stored key in the second cache returns its
  value and "found", at the clock reading of \<open>Read\<close> and at every reading within the
  default TTL of the second cache after it. The list of pairs is arbitrary, so the
  order of insertion does not matter.
\<close>

theorem Write_Read_round_trip:
  assumes "codec_ok enc dec" "distinct (map fst kvs)"
  shows "\<exists>g1 s g2. set_all h t0 (New opts1) kvs NoTTL = Inr g1 \<and>
           Write h enc False t1 g1 = Inr (Inr s, g1) \<and>
           Read h dec t2 (New opts2) s = Inr (None, g2) \<and>
           (\<forall>(k, v) \<in> set kvs. Get h z t2 g2 k = Inr ((v, True), g2)) \<and>
           (\<forall>t3. \<not> 0 <s expire_g (New opts2) \<or> sint t3 \<le> sint t2 + sint (expire_g (New opts2))
              \<longrightarrow> (\<forall>(k, v) \<in> set kvs. Get h z t3 g2 k = Inr ((v, True), g2)))"
proof -
  let ?d = "expire_g (New opts2)"
  let ?E = "if 0 <s ?d then t2 + ?d else ?d"
  from set_all_stores [where g = "New opts1" and h = h and t = t1 and now = t0,
      OF array_ok_New routed_New all_valid_New assms(2) not_pos_NoTTL]
  obtain g1 where a: "set_all h t0 (New opts1) kvs NoTTL = Inr g1"
    and ok1: "array_ok g1" and r1: "routed h g1" and v1: "all_valid t1 g1"
    and st: "\<forall>(k, v) \<in> set kvs. entry_of h g1 k = Some \<lparr>expire = NoTTL, val = v\<rparr>"
    by blast
  from Write_then_Read [where g = "New opts2" and now = t2,
      OF assms(1) ok1 r1 v1 array_ok_New]
  obtain s g2 where w: "Write h enc False t1 g1 = Inr (Inr s, g1)"
    and r: "Read h dec t2 (New opts2) s = Inr (None, g2)" and ok2: "array_ok g2"
    and en: "\<forall>k e. entry_of h g1 k = Some e \<longrightarrow>
               entry_of h g2 k = Some \<lparr>expire = ?E, val = val e\<rparr>"
    by blast
  have ent: "entry_of h g2 k = Some \<lparr>expire = ?E, val = v\<rparr>" if "(k, v) \<in> set kvs" for k v
  proof -
    have "entry_of h g1 k = Some \<lparr>expire = NoTTL, val = v\<rparr>"
      using st that by auto
    with en show ?thesis by fastforce
  qed
  have valid: "isValid t3 \<lparr>expire = ?E, val = v\<rparr>"
    if "\<not> 0 <s ?d \<or> sint t3 \<le> sint t2 + sint ?d" for t3 and v :: 'a
  proof (cases "0 <s ?d")
    case True
    with that have "sint t3 \<le> sint t2 + sint ?d" by simp
    with True show ?thesis
      using valid_within_ttl [of ?d t3 t2 v] by simp
  next
    case False
    then show ?thesis by (simp add: never_expires)
  qed
  have gt: "Get h z t3 g2 k = Inr ((v, True), g2)"
    if "\<not> 0 <s ?d \<or> sint t3 \<le> sint t2 + sint ?d" "(k, v) \<in> set kvs" for t3 k v
    using get_valid [OF ok2 ent [OF that(2)] valid [OF that(1)], of z]
    by (simp add: Get_unfold)
  have here: "\<not> 0 <s ?d \<or> sint t2 \<le> sint t2 + sint ?d"
    by (cases "0 <s ?d") (simp_all add: word_sless_alt)
  have c4: "\<forall>(k, v) \<in> set kvs. Get h z t2 g2 k = Inr ((v, True), g2)"
    using gt [OF here] by auto
  have c5: "\<forall>t3. \<not> 0 <s ?d \<or> sint t3 \<le> sint t2 + sint ?d
              \<longrightarrow> (\<forall>(k, v) \<in> set kvs. Get h z t3 g2 k = Inr ((v, True), g2))"
    using gt by auto
  show ?thesis
    by (intro exI [of _ g1] exI [of _ s] exI [of _ g2] conjI a w r c4 c5)
qed

lemma map_of_rev_distinct: "distinct (map fst xs) \<Longrightarrow> map_of (rev xs) = map_of xs"
  by (subst map_of_inject_set) (simp_all add: rev_map [symmetric])

lemma codec_ok_sample: "codec_ok enc_rev dec_plain"
  by (simp add: codec_ok_def enc_rev_def dec_plain_def map_of_rev_distinct rev_map [symmetric])

theorem Write_Read_round_trip_witness:
  "codec_ok enc_rev dec_plain \<and> distinct (map fst [(''a'', 7 :: nat), (''bb'', 8)]) \<and>
   (\<exists>g1 s g2. set_all hash_len 5 (New []) [(''a'', 7 :: nat), (''bb'', 8)] NoTTL = Inr g1 \<and>
      Write hash_len enc_rev False 6 g1 = Inr (Inr s, g1) \<and>
      Read hash_len dec_plain 7 (New []) s = Inr (None, g2) \<and>
      Get hash_len 0 7 g2 ''a'' = Inr ((7, True), g2) \<and>
      Get hash_len 0 7 g2 ''bb'' = Inr ((8, True), g2))"
proof -
  have d: "distinct (map fst [(''a'', 7 :: nat), (''bb'', 8)])"
    by simp
  from Write_Read_round_trip [OF codec_ok_sample d, where h = hash_len and ?t0.0 = 5
      and ?opts1.0 = "[]" and ?t1.0 = 6 and ?t2.0 = 7 and ?opts2.0 = "[]" and z = 0]
  obtain g1 s g2 where
    "set_all hash_len 5 (New []) [(''a'', 7 :: nat), (''bb'', 8)] NoTTL = Inr g1"
    "Write hash_len enc_rev False 6 g1 = Inr (Inr s, g1)"
    "Read hash_len dec_plain 7 (New []) s = Inr (None, g2)"
    "\<forall>(k, v) \<in> set [(''a'', 7 :: nat), (''bb'', 8)]. Get hash_len 0 7 g2 k = Inr ((v, True), g2)"
    by blast
  then have "set_all hash_len 5 (New []) [(''a'', 7 :: nat), (''bb'', 8)] NoTTL = Inr g1 \<and>
      Write hash_len enc_rev False 6 g1 = Inr (Inr s, g1) \<and>
      Read hash_len dec_plain 7 (New []) s = Inr (None, g2) \<and>
      Get hash_len 0 7 g2 ''a'' = Inr ((7, True), g2) \<and>
      Get hash_len 0 7 g2 ''bb'' = Inr ((8, True), g2)"
    by simp
  then show ?thesis
    using codec_ok_sample d by blast
qed

section \<open>What Write puts into the sink\<close>

lemma collect_values:
  "fold (\<lambda>(k, e) m. AList.update k (val e) m) es m0 =
     fold (\<lambda>(k, v) m. AList.update k v m) (map (\<lambda>(k, e). (k, val e)) es) m0"
  by (induction es arbitrary: m0) auto

lemma Write_payload:
  assumes "all_valid now g"
  shows "map_sum id fst (Write h enc False now g) =
           Inr (enc (fold (\<lambda>(k, v) m. AList.update k v m)
                  (concat (map (map (\<lambda>(k, e). (k, val e))) (shards g))) []))"
  using assms by (simp add: Write_all_valid collect_values map_concat)

text \<open>
  C6. \<open>Read\<close> of a source that decodes to a map stores every pair of the map with the
  default TTL of the cache, counted from the clock reading of \<open>Read\<close>: the expiration
  is that reading plus the default TTL when the default is positive, and the default
  itself otherwise; \<open>GetWithExpire\<close> returns it. What \<open>Write\<close> hands to the encoder is
  a map from keys to values and nothing else: two caches without expired entries that
  hold the same keys and values, with whatever expirations, write the same sink. So an
  entry that is written and read back has the expiration that \<open>Read\<close> computes,
  whatever its expiration was.
\<close>

theorem Read_applies_default_TTL:
  assumes "array_ok g"
  shows "(\<forall>r m. dec r = Inr m \<and> distinct (map fst m) \<longrightarrow>
            (\<exists>g'. Read h dec now g r = Inr (None, g') \<and>
               (\<forall>(k, v) \<in> set m.
                  entry_of h g' k =
                    Some \<lparr>expire = (if 0 <s expire_g g then now + expire_g g else expire_g g),
                          val = v\<rparr> \<and>
                  GetWithExpire h z now g' k =
                    Inr ((v, (if 0 <s expire_g g then now + expire_g g else expire_g g), True), g')))) \<and>
         (\<forall>g1 g2 t1 t2. all_valid t1 g1 \<and> all_valid t2 g2 \<and>
            map (map (\<lambda>(k, e). (k, val e))) (shards g1) =
              map (map (\<lambda>(k, e). (k, val e))) (shards g2) \<longrightarrow>
            map_sum id fst (Write h enc False t1 g1) = map_sum id fst (Write h enc False t2 g2)) \<and>
         (\<forall>g1 t1 k e. codec_ok enc dec \<and> array_ok g1 \<and> routed h g1 \<and> all_valid t1 g1 \<and>
            entry_of h g1 k = Some e \<longrightarrow>
            (\<exists>s g'. Write h enc False t1 g1 = Inr (Inr s, g1) \<and>
               Read h dec now g s = Inr (None, g') \<and>
               entry_of h g' k =
                 Some \<lparr>expire = (if 0 <s expire_g g then now + expire_g g else expire_g g),
                       val = val e\<rparr>))"
proof -
  let ?E = "if 0 <s expire_g g then now + expire_g g else expire_g g"
  have a: "\<exists>g'. Read h dec now g r = Inr (None, g') \<and>
               (\<forall>(k, v) \<in> set m.
                  entry_of h g' k = Some \<lparr>expire = ?E, val = v\<rparr> \<and>
                  GetWithExpire h z now g' k = Inr ((v, ?E, True), g'))"
    if "dec r = Inr m \<and> distinct (map fst m)" for r m
  proof -
    from Read_stores [where dec = dec and r = r and m = m and g = g and h = h and now = now,
        OF assms] that
    obtain g' where r: "Read h dec now g r = Inr (None, g')" and ok': "array_ok g'"
      and st: "\<forall>(k, v) \<in> set m. entry_of h g' k = Some \<lparr>expire = ?E, val = v\<rparr>"
      by blast
    have "GetWithExpire h z now g' k = Inr ((v, ?E, True), g')" if "(k, v) \<in> set m" for k v
    proof -
      have "entry_of h g' k = Some \<lparr>expire = ?E, val = v\<rparr>"
        using st that by auto
      from get_valid [OF ok' this default_ttl_valid, of z] show ?thesis
        by (simp add: GetWithExpire_def)
    qed
    with st have "\<forall>(k, v) \<in> set m.
                  entry_of h g' k = Some \<lparr>expire = ?E, val = v\<rparr> \<and>
                  GetWithExpire h z now g' k = Inr ((v, ?E, True), g')"
      by auto
    with r show ?thesis by blast
  qed
  have b: "\<forall>g1 g2 t1 t2. all_valid t1 g1 \<and> all_valid t2 g2 \<and>
            map (map (\<lambda>(k, e). (k, val e))) (shards g1) =
              map (map (\<lambda>(k, e). (k, val e))) (shards g2) \<longrightarrow>
            map_sum id fst (Write h enc False t1 g1) = map_sum id fst (Write h enc False t2 g2)"
    by (simp add: Write_payload)
  have c: "\<exists>s g'. Write h enc False t1 g1 = Inr (Inr s, g1) \<and>
               Read h dec now g s = Inr (None, g') \<and>
               entry_of h g' k = Some \<lparr>expire = ?E, val = val e\<rparr>"
    if "codec_ok enc dec \<and> array_ok g1 \<and> routed h g1 \<and> all_valid t1 g1 \<and>
            entry_of h g1 k = Some e" for g1 t1 k e
  proof -
    from that have p: "codec_ok enc dec" "array_ok g1" "routed h g1" "all_valid t1 g1"
      "entry_of h g1 k = Some e" by simp_all
    from Write_then_Read [where g = g and now = now, OF p(1-4) assms] p(5)
    show ?thesis by blast
  qed
  show ?thesis
    using a b c by blast
qed

lemma sample_ttl_fields:
  "array_ok (sample_ttl ex) \<and> expire_g (sample_ttl ex) = second * 30 \<and>
   entry_of hash_len (sample_ttl ex) ''a'' = Some \<lparr>expire = ex, val = 7\<rparr> \<and>
   map (map (\<lambda>(k, e). (k, val e))) (shards (sample_ttl ex)) = (replicate slen [])[1 := [(''a'', 7)]]"
  by (simp add: sample_ttl_def array_ok_def New_nil_fields entry_of_def sample_idx slen_def
      newMap_def map_update)

lemma sample_ttl_shard:
  assumes "s \<in> set (shards (sample_ttl ex))"
  shows "s = [] \<or> s = [(''a'', \<lparr>expire = ex, val = 7\<rparr>)]"
proof -
  have "set (shards (sample_ttl ex)) \<subseteq>
      insert [(''a'', \<lparr>expire = ex, val = 7\<rparr>)] (set (replicate slen newMap))"
    unfolding sample_ttl_def by (simp add: set_update_subset_insert)
  with assms show ?thesis
    by (auto simp add: newMap_def)
qed

lemma sample_ttl_all_valid:
  "isValid t \<lparr>expire = ex, val = 7 :: nat\<rparr> \<Longrightarrow> all_valid t (sample_ttl ex)"
  unfolding all_valid_def using sample_ttl_shard [of _ ex] by fastforce

lemma sample_ttl_routed: "routed hash_len (sample_ttl ex)"
proof -
  have "distinct (map fst (shards (sample_ttl ex) ! i)) \<and>
        (\<forall>(k, e) \<in> set (shards (sample_ttl ex) ! i). shard_idx hash_len k = i)"
    if "i < length (shards (sample_ttl ex))" for i
  proof (cases "i = 1")
    case True
    then show ?thesis
      by (simp add: sample_ttl_def slen_def sample_idx)
  next
    case False
    then have "shards (sample_ttl ex) ! i = []"
      using that by (simp add: sample_ttl_def newMap_def)
    then show ?thesis by simp
  qed
  then show ?thesis
    by (simp add: routed_def)
qed

theorem Read_applies_default_TTL_witness:
  "array_ok (New [] :: nat gache) \<and> dec_sample ''a=1'' = Inr [(''a'', 1)] \<and>
   distinct (map fst [(''a'', 1 :: nat)]) \<and>
   (\<exists>g'. Read hash_len dec_sample 5 (New [] :: nat gache) ''a=1'' = Inr (None, g') \<and>
      entry_of hash_len g' ''a'' = Some \<lparr>expire = 30000000005, val = 1\<rparr> \<and>
      GetWithExpire hash_len 0 5 g' ''a'' = Inr ((1, 30000000005, True), g')) \<and>
   all_valid 9 (sample_ttl (- 1)) \<and> all_valid 9 (sample_ttl 100) \<and>
   map (map (\<lambda>(k, e). (k, val e))) (shards (sample_ttl (- 1))) =
     map (map (\<lambda>(k, e). (k, val e))) (shards (sample_ttl 100)) \<and>
   map_sum id fst (Write hash_len enc_rev False 9 (sample_ttl (- 1))) =
     map_sum id fst (Write hash_len enc_rev False 9 (sample_ttl 100)) \<and>
   codec_ok enc_rev dec_plain \<and> array_ok (sample_ttl 100) \<and> routed hash_len (sample_ttl 100) \<and>
   entry_of hash_len (sample_ttl 100) ''a'' = Some \<lparr>expire = 100, val = 7\<rparr> \<and>
   (\<exists>s g'. Write hash_len enc_rev False 9 (sample_ttl 100) = Inr (Inr s, sample_ttl 100) \<and>
      Read hash_len dec_plain 5 (New [] :: nat gache) s = Inr (None, g') \<and>
      entry_of hash_len g' ''a'' = Some \<lparr>expire = 30000000005, val = 7\<rparr>)"
proof -
  have ok: "array_ok (New [] :: nat gache)"
    by (rule array_ok_New)
  have E: "(if 0 <s expire_g (New [] :: nat gache) then 5 + expire_g (New [] :: nat gache)
            else expire_g (New [] :: nat gache)) = 30000000005"
    by (simp add: New_nil_fields second_def word_sless_alt)
  have ds: "dec_sample ''a=1'' = Inr [(''a'', 1)]"
    by (simp add: dec_sample_def)
  have v: "all_valid 9 (sample_ttl (- 1))" "all_valid 9 (sample_ttl 100)"
    by (rule sample_ttl_all_valid, simp add: isValid_sint)+
  have pr: "map (map (\<lambda>(k, e). (k, val e))) (shards (sample_ttl (- 1))) =
     map (map (\<lambda>(k, e). (k, val e))) (shards (sample_ttl 100))"
    by (simp add: sample_ttl_fields)
  note f = sample_ttl_fields [of 100]
  note th1 = Read_applies_default_TTL [OF ok, where h = hash_len and now = 5 and z = 0
      and dec = dec_sample, unfolded E]
  note th2 = Read_applies_default_TTL [OF ok, where h = hash_len and now = 5 and z = 0
      and dec = dec_plain and enc = enc_rev, unfolded E]
  have c1: "\<exists>g'. Read hash_len dec_sample 5 (New [] :: nat gache) ''a=1'' = Inr (None, g') \<and>
      entry_of hash_len g' ''a'' = Some \<lparr>expire = 30000000005, val = 1\<rparr> \<and>
      GetWithExpire hash_len 0 5 g' ''a'' = Inr ((1, 30000000005, True), g')"
    using th1 [THEN conjunct1, rule_format, of "''a=1''" "[(''a'', 1)]"] ds by simp
  have c2: "map_sum id fst (Write hash_len enc_rev False 9 (sample_ttl (- 1))) =
     map_sum id fst (Write hash_len enc_rev False 9 (sample_ttl 100))"
    using th2 [THEN conjunct2, THEN conjunct1, rule_format,
        of 9 "sample_ttl (- 1)" 9 "sample_ttl 100"] v pr by simp
  have c3: "\<exists>s g'. Write hash_len enc_rev False 9 (sample_ttl 100) = Inr (Inr s, sample_ttl 100) \<and>
      Read hash_len dec_plain 5 (New [] :: nat gache) s = Inr (None, g') \<and>
      entry_of hash_len g' ''a'' = Some \<lparr>expire = 30000000005, val = 7\<rparr>"
    using th2 [THEN conjunct2, THEN conjunct2, rule_format,
        of "sample_ttl 100" 9 "''a''" "\<lparr>expire = 100, val = 7\<rparr>"]
      codec_ok_sample f v(2) sample_ttl_routed [of 100] by simp
  show ?thesis
    using ok ds c1 v pr c2 codec_ok_sample f sample_ttl_routed [of 100] c3 by simp
qed

end
